theory Spec2Isabelle
  imports Complex_Main "HOL-Library.Sublist"
begin

section \<open>The world-editing client and the Python values the scripts use\<close>

text \<open>
  Both scripts talk to one external collaborator, the editor of the world-editing
  library. Its two operations used here are \<open>getBlock\<close>, which reads the block at a
  coordinate, and \<open>placeBlock\<close>, which overwrites one voxel. The model keeps the live
  world as a total function from coordinates to blocks and records every \<open>placeBlock\<close>
  call, oldest first, so that statements about the calls a script issues and about the
  world it leaves behind can both be made. The heightmaps of the world slice, the
  standard output and the stream of numbers that \<open>random.random()\<close> will return are
  part of the same state, since the scripts reach all of them through global objects.
\<close>

type_synonym pos = "int \<times> int \<times> int"

datatype block = Block (block_id: string)

datatype pyval = PStr string | PInt int | PShape "nat \<times> nat"

datatype error = KeyError | IndexError

text \<open>A two-dimensional numpy array of integers: its shape and its cells.\<close>

record ndarray =
  shape :: "nat \<times> nat"
  cells :: "nat \<times> nat \<Rightarrow> int"

record state =
  world :: "pos \<Rightarrow> block"
  calls :: "(pos \<times> block) list"
  heightmaps :: "string \<rightharpoonup> ndarray"
  stdout :: "pyval list list"
  rng :: "nat \<Rightarrow> rat"

text \<open>A statement either runs to its end or raises, leaving the state it reached.\<close>

datatype outcome = Done state | Raised error state

fun final :: "outcome \<Rightarrow> state" where
  "final (Done s) = s"
| "final (Raised e s) = s"

definition getBlock :: "state \<Rightarrow> pos \<Rightarrow> block" where
  "getBlock s p = world s p"

definition placeBlock :: "pos \<Rightarrow> block \<Rightarrow> state \<Rightarrow> state" where
  "placeBlock p b s = s\<lparr>world := (world s)(p := b), calls := calls s @ [(p, b)]\<rparr>"

definition print :: "pyval list \<Rightarrow> state \<Rightarrow> state" where
  "print args s = s\<lparr>stdout := stdout s @ [args]\<rparr>"

text \<open>\<open>random.random()\<close>: the next number of the stream, which then advances.\<close>

definition random :: "state \<Rightarrow> rat \<times> state" where
  "random s = (rng s 0, s\<lparr>rng := (\<lambda>n. rng s (Suc n))\<rparr>)"

text \<open>Python's \<open>sub in s\<close> on strings: \<open>sub\<close> occurs in \<open>s\<close> as a contiguous run.\<close>

abbreviation py_in :: "string \<Rightarrow> string \<Rightarrow> bool" where
  "py_in sub s \<equiv> sublist sub s"

text \<open>\<open>range(a, b)\<close> and \<open>range(a, b, 2)\<close> on integers.\<close>

definition py_range :: "int \<Rightarrow> int \<Rightarrow> int list" where
  "py_range a b = [a..b - 1]"

function py_range2 :: "int \<Rightarrow> int \<Rightarrow> int list" where
  "py_range2 a b = (if a < b then a # py_range2 (a + 2) b else [])"
  by pat_completeness auto
termination
  by (relation "measure (\<lambda>(a, b). nat (b - a))") auto

text \<open>
  \<open>a[(i, j)]\<close> on a two-dimensional numpy array: a negative index counts from the end
  of its axis, and an index outside the axis raises \<open>IndexError\<close>.
\<close>

definition index2 :: "ndarray \<Rightarrow> int \<times> int \<Rightarrow> error + int" where
  "index2 a ij =
     (let (rows, cols) = shape a;
          (i, j) = ij;
          i' = (if i < 0 then i + int rows else i);
          j' = (if j < 0 then j + int cols else j)
      in if 0 \<le> i' \<and> i' < int rows \<and> 0 \<le> j' \<and> j' < int cols
         then Inr (cells a (nat i', nat j'))
         else Inl IndexError)"

text \<open>A \<open>for\<close> loop whose body may raise: the first exception ends the loop.\<close>

fun for_each :: "'a list \<Rightarrow> ('a \<Rightarrow> state \<Rightarrow> outcome) \<Rightarrow> state \<Rightarrow> outcome" where
  "for_each [] body s = Done s"
| "for_each (x # xs) body s =
     (case body x s of
        Done s' \<Rightarrow> for_each xs body s'
      | Raised e s' \<Rightarrow> Raised e s')"

text \<open>The rectangle and the box the external tool hands over.\<close>

record rect =
  rect_offset :: "int \<times> int"
  rect_size :: "int \<times> int"

record box =
  box_begin :: pos
  box_size :: pos

section \<open>The area clearing utility\<close>

text \<open>
  The boundary descent of \<open>clear_area\<close>, lines 33 to 36: the loop state is the pair of
  \<open>start\<close> and the block last read, which is the block at \<open>(x, start - 1, z)\<close>.
  The test of the loop on the block's id is \<open>in_tree\<close>.
\<close>

definition in_tree :: "block \<Rightarrow> bool" where
  "in_tree block =
     (py_in ''log'' (block_id block) \<or> py_in ''leaves'' (block_id block)
        \<or> py_in ''mushroom'' (block_id block))"

function descent :: "state \<Rightarrow> int \<Rightarrow> int \<Rightarrow> int \<times> block \<Rightarrow> int \<times> block" where
  "descent s x z (start, block) =
     (if in_tree block \<and> start > 0
      then descent s x z (start - 1, getBlock s (x, (start - 1) - 1, z))
      else (start, block))"
  by pat_completeness auto
termination
  by (relation "measure (\<lambda>(s, x, z, start, block). nat start)") auto

text \<open>The same loop, counting how often its body runs.\<close>

function descent_iterations :: "state \<Rightarrow> int \<Rightarrow> int \<Rightarrow> int \<times> block \<Rightarrow> nat" where
  "descent_iterations s x z (start, block) =
     (if in_tree block \<and> start > 0
      then Suc (descent_iterations s x z (start - 1, getBlock s (x, (start - 1) - 1, z)))
      else 0)"
  by pat_completeness auto
termination
  by (relation "measure (\<lambda>(s, x, z, start, block). nat start)") auto

text \<open>The body of the two column loops of \<open>clear_area\<close>, lines 31 to 40.\<close>

definition clear_column :: "ndarray \<Rightarrow> ndarray \<Rightarrow> rect \<Rightarrow> int \<Rightarrow> int \<Rightarrow> state \<Rightarrow> outcome" where
  "clear_column bottom top' buildRect x z s =
     (case index2 bottom (x - fst (rect_offset buildRect), z - snd (rect_offset buildRect)) of
        Inl e \<Rightarrow> Raised e s
      | Inr start0 \<Rightarrow>
     (case index2 top' (x - fst (rect_offset buildRect), z - snd (rect_offset buildRect)) of
        Inl e \<Rightarrow> Raised e s
      | Inr end' \<Rightarrow>
          (let (start, block) = descent s x z (start0, getBlock s (x, start0 - 1, z));
               s1 = (if py_in ''dirt'' (block_id block)
                     then placeBlock (x, start - 1, z) (Block ''air'') s
                     else s)
           in Done (fold (\<lambda>y. placeBlock (x, y, z) (Block ''air'')) (py_range start end') s1))))"

definition clear_area :: "ndarray \<Rightarrow> rect \<Rightarrow> box \<Rightarrow> state \<Rightarrow> outcome" where
  "clear_area heightmap buildRect build_area s =
     (case heightmaps s ''MOTION_BLOCKING_NO_LEAVES'' of
        None \<Rightarrow> Raised KeyError s
      | Some bottom \<Rightarrow>
     (case heightmaps s ''WORLD_SURFACE'' of
        None \<Rightarrow> Raised KeyError s
      | Some top' \<Rightarrow>
     (case for_each
             (py_range (fst (rect_offset buildRect))
                (fst (rect_offset buildRect) + fst (rect_size buildRect)))
             (\<lambda>x. for_each
                (py_range (snd (rect_offset buildRect))
                   (snd (rect_offset buildRect) + snd (rect_size buildRect)))
                (\<lambda>z. clear_column bottom top' buildRect x z)) s of
        Raised e s' \<Rightarrow> Raised e s'
      | Done s' \<Rightarrow> Done (print [PStr ''Done!''] s'))))"

text \<open>
  \<open>flatten_area\<close>, lines 7 to 23. The Python names \<open>min\<close> and \<open>max\<close> are primed here.
\<close>

definition flatten_area :: "ndarray \<Rightarrow> rect \<Rightarrow> box \<Rightarrow> state \<Rightarrow> state" where
  "flatten_area heightmap buildRect build_area s =
     (let min' = fst (snd (box_begin build_area)) - 1;
          max' = fst (snd (box_size build_area)) + min';
          s1 = print [PStr ''max height is: '', PInt max'] s;
          s2 = print [PStr ''min height is: '', PInt min'] s1;
          s3 = fold
                 (\<lambda>x. fold
                    (\<lambda>z s.
                       (let block = getBlock s (x, min', z);
                            s' = print [PStr (block_id block)] s
                        in placeBlock (x, min', z) (Block ''grass_block'') s'))
                    (py_range (snd (rect_offset buildRect))
                       (snd (rect_offset buildRect) + snd (rect_size buildRect))))
                 (py_range (fst (rect_offset buildRect))
                    (fst (rect_offset buildRect) + fst (rect_size buildRect)))
                 s2
      in print [PStr ''Build area flattened!''] s3)"

section \<open>The tree-house builder\<close>

text \<open>\<open>starting_pos + np.array([x, y, z])\<close>: the sum of two vectors.\<close>

fun vadd :: "pos \<Rightarrow> pos \<Rightarrow> pos" where
  "vadd (a, b, c) (d, e, f) = (a + d, b + e, c + f)"

text \<open>
  \<open>build_treehouse\<close>, lines 97 to 145, is a sequence of eight loops over the same
  editor. Each loop is a definition of its own here, named after the comment that
  introduces it in the source, and \<open>build_treehouse\<close> runs them in the source's order.
\<close>

definition platform_pass :: "pos \<Rightarrow> int \<Rightarrow> int \<Rightarrow> state \<Rightarrow> state" where
  "platform_pass starting_pos platform_height platform_radius s =
     fold (\<lambda>x. fold
        (\<lambda>z s.
           if x * x + z * z \<le> platform_radius * platform_radius
           then placeBlock (vadd starting_pos (x, platform_height, z)) (Block ''oak_log'') s
           else s)
        (py_range (- platform_radius) (platform_radius + 1)))
      (py_range (- platform_radius) (platform_radius + 1)) s"

definition wall_pass :: "pos \<Rightarrow> int \<Rightarrow> int \<Rightarrow> int \<Rightarrow> block \<Rightarrow> state \<Rightarrow> state" where
  "wall_pass starting_pos platform_height platform_radius house_height block_type s =
     fold (\<lambda>y. fold (\<lambda>x. fold
        (\<lambda>z s.
           if (x = - platform_radius \<or> x = platform_radius)
              \<or> (z = - platform_radius \<or> z = platform_radius)
           then placeBlock (vadd starting_pos (x, platform_height + 1 + y, z)) block_type s
           else placeBlock (vadd starting_pos (x, platform_height + 1 + y, z)) (Block ''air'') s)
        (py_range (- platform_radius) (platform_radius + 1)))
        (py_range (- platform_radius) (platform_radius + 1)))
      (py_range 0 house_height) s"

definition trunk_pass :: "pos \<Rightarrow> int \<Rightarrow> state \<Rightarrow> state" where
  "trunk_pass starting_pos tree_height s =
     fold (\<lambda>y. placeBlock (vadd starting_pos (0, y, 0)) (Block ''oak_log''))
       (py_range 0 tree_height) s"

text \<open>
  In the test of the window loop Python's \<open>and\<close> binds tighter than \<open>or\<close>, so the
  test reads \<open>A or (B and C)\<close>.
\<close>

definition window_pass :: "pos \<Rightarrow> int \<Rightarrow> int \<Rightarrow> int \<Rightarrow> state \<Rightarrow> state" where
  "window_pass starting_pos platform_height platform_radius house_height s =
     fold (\<lambda>y. fold (\<lambda>x. fold
        (\<lambda>z s.
           if (x = - platform_radius \<or> x = platform_radius - 1)
              \<or> ((z = - platform_radius \<or> z = platform_radius - 1)
                   \<and> (x \<noteq> platform_radius \<or> z \<noteq> - platform_radius))
           then placeBlock (vadd starting_pos (x, platform_height + y, z)) (Block ''glass'') s
           else s)
        (py_range2 (- platform_radius) platform_radius))
        (py_range2 (- platform_radius) platform_radius))
      (py_range 1 (house_height - 1)) s"

definition roof_pass :: "pos \<Rightarrow> int \<Rightarrow> int \<Rightarrow> int \<Rightarrow> state \<Rightarrow> state" where
  "roof_pass starting_pos platform_height platform_radius house_height s =
     fold (\<lambda>x. fold
        (\<lambda>z. placeBlock (vadd starting_pos (x, platform_height + house_height, z))
                (Block ''oak_slab''))
        (py_range (- platform_radius - 1) (platform_radius + 2)))
      (py_range (- platform_radius - 1) (platform_radius + 2)) s"

definition ladder_pass :: "pos \<Rightarrow> int \<Rightarrow> state \<Rightarrow> state" where
  "ladder_pass starting_pos platform_height s =
     fold (\<lambda>y. placeBlock (vadd starting_pos (0, y, - 1)) (Block ''ladder''))
       (py_range 1 (platform_height + 3)) s"

definition door_pass :: "pos \<Rightarrow> int \<Rightarrow> int \<Rightarrow> state \<Rightarrow> state" where
  "door_pass starting_pos platform_height platform_radius s =
     placeBlock (vadd starting_pos (1, platform_height + 1, - platform_radius))
       (Block ''oak_fence_gate'') s"

definition leaf_density :: rat where
  "leaf_density = 1 / 2"

text \<open>
  The leaf loop draws a random number only where the geometric part of its test holds,
  since \<open>and\<close> evaluates its right side only then.
\<close>

definition leaf_pass :: "pos \<Rightarrow> int \<Rightarrow> int \<Rightarrow> int \<Rightarrow> state \<Rightarrow> state" where
  "leaf_pass starting_pos platform_height platform_radius house_height s =
     fold (\<lambda>y. fold (\<lambda>x. fold
        (\<lambda>z s.
           if ((x = - platform_radius - 1 \<or> x = platform_radius + 1)
               \<or> (z = - platform_radius - 1 \<or> z = platform_radius + 1))
              \<or> y = house_height + 1
           then (let (u, s') = random s
                 in if u < leaf_density
                    then placeBlock (vadd starting_pos (x, platform_height + y, z))
                           (Block ''spruce_leaves'') s'
                    else s')
           else s)
        (py_range (- platform_radius - 1) (platform_radius + 2)))
        (py_range (- platform_radius - 1) (platform_radius + 2)))
      (py_range 0 (house_height + 2)) s"

text \<open>The seven passes before the leaves, in the order of the source.\<close>

definition structure_passes :: "pos \<Rightarrow> int \<Rightarrow> int \<Rightarrow> int \<Rightarrow> int \<Rightarrow> block \<Rightarrow> state \<Rightarrow> state" where
  "structure_passes starting_pos tree_height platform_height platform_radius house_height
       block_type s =
     door_pass starting_pos platform_height platform_radius
       (ladder_pass starting_pos platform_height
         (roof_pass starting_pos platform_height platform_radius house_height
           (window_pass starting_pos platform_height platform_radius house_height
             (trunk_pass starting_pos tree_height
               (wall_pass starting_pos platform_height platform_radius house_height block_type
                 (platform_pass starting_pos platform_height platform_radius s))))))"

definition build_treehouse :: "pos \<Rightarrow> int \<Rightarrow> int \<Rightarrow> int \<Rightarrow> int \<Rightarrow> block \<Rightarrow> state \<Rightarrow> state" where
  "build_treehouse starting_pos tree_height platform_height platform_radius house_height
       block_type s =
     leaf_pass starting_pos platform_height platform_radius house_height
       (structure_passes starting_pos tree_height platform_height platform_radius
          house_height block_type s)"

text \<open>
  The end of the script \<open>tree_house.py\<close>, lines 92 to 147: it looks one heightmap up,
  prints its shape and builds the tree house at the corner \<open>buildArea.begin\<close> of the
  build area. The formatted string is kept as its parts.
\<close>

definition tree_house_script :: "box \<Rightarrow> state \<Rightarrow> outcome" where
  "tree_house_script buildArea s =
     (case heightmaps s ''MOTION_BLOCKING_NO_LEAVES'' of
        None \<Rightarrow> Raised KeyError s
      | Some heightmap \<Rightarrow>
          Done (build_treehouse (box_begin buildArea) 15 10 3 4 (Block ''oak_log'')
                  (print [PStr ''Heightmap shape: '', PShape (shape heightmap)] s)))"

text \<open>
  \<open>Box.toRect()\<close> of the library keeps the horizontal extent of a box, and a column
  \<open>(x, z)\<close> lies in a rectangle when both coordinates are at least the offset and
  less than offset plus size.
\<close>

definition toRect :: "box \<Rightarrow> rect" where
  "toRect b =
     \<lparr>rect_offset = (fst (box_begin b), snd (snd (box_begin b))),
      rect_size = (fst (box_size b), snd (snd (box_size b)))\<rparr>"

definition in_rect :: "rect \<Rightarrow> pos \<Rightarrow> bool" where
  "in_rect r p =
     (fst (rect_offset r) \<le> fst p \<and> fst p < fst (rect_offset r) + fst (rect_size r)
      \<and> snd (rect_offset r) \<le> snd (snd p)
      \<and> snd (snd p) < snd (rect_offset r) + snd (rect_size r))"

section \<open>Calls, their effect on the world, and the calls of each loop\<close>

text \<open>The calls a run adds to the editor's record, and their effect on a world.\<close>

definition new_calls :: "state \<Rightarrow> state \<Rightarrow> (pos \<times> block) list" where
  "new_calls s s' = drop (length (calls s)) (calls s')"

definition replay :: "(pos \<times> block) list \<Rightarrow> (pos \<Rightarrow> block) \<Rightarrow> (pos \<Rightarrow> block)" where
  "replay cs w = fold (\<lambda>c w. w(fst c := snd c)) cs w"

text \<open>
  The calls of each pass of \<open>build_treehouse\<close>, written as a list comprehension over
  the ranges of the loops of the pass, in the order in which the loops run. That a pass
  issues exactly these calls is proved below, pass by pass. For the leaf pass the list
  holds the places where a leaf block can go; which of them get one depends on the
  random numbers drawn.
\<close>

definition platform_calls :: "pos \<Rightarrow> int \<Rightarrow> int \<Rightarrow> (pos \<times> block) list" where
  "platform_calls starting_pos platform_height platform_radius =
     [(vadd starting_pos (x, platform_height, z), Block ''oak_log'').
        x \<leftarrow> py_range (- platform_radius) (platform_radius + 1),
        z \<leftarrow> py_range (- platform_radius) (platform_radius + 1),
        x * x + z * z \<le> platform_radius * platform_radius]"

definition wall_calls :: "pos \<Rightarrow> int \<Rightarrow> int \<Rightarrow> int \<Rightarrow> block \<Rightarrow> (pos \<times> block) list" where
  "wall_calls starting_pos platform_height platform_radius house_height block_type =
     [(vadd starting_pos (x, platform_height + 1 + y, z),
       if (x = - platform_radius \<or> x = platform_radius)
          \<or> (z = - platform_radius \<or> z = platform_radius)
       then block_type else Block ''air'').
        y \<leftarrow> py_range 0 house_height,
        x \<leftarrow> py_range (- platform_radius) (platform_radius + 1),
        z \<leftarrow> py_range (- platform_radius) (platform_radius + 1)]"

definition trunk_calls :: "pos \<Rightarrow> int \<Rightarrow> (pos \<times> block) list" where
  "trunk_calls starting_pos tree_height =
     [(vadd starting_pos (0, y, 0), Block ''oak_log''). y \<leftarrow> py_range 0 tree_height]"

definition window_calls :: "pos \<Rightarrow> int \<Rightarrow> int \<Rightarrow> int \<Rightarrow> (pos \<times> block) list" where
  "window_calls starting_pos platform_height platform_radius house_height =
     [(vadd starting_pos (x, platform_height + y, z), Block ''glass'').
        y \<leftarrow> py_range 1 (house_height - 1),
        x \<leftarrow> py_range2 (- platform_radius) platform_radius,
        z \<leftarrow> py_range2 (- platform_radius) platform_radius,
        (x = - platform_radius \<or> x = platform_radius - 1)
        \<or> ((z = - platform_radius \<or> z = platform_radius - 1)
             \<and> (x \<noteq> platform_radius \<or> z \<noteq> - platform_radius))]"

definition roof_calls :: "pos \<Rightarrow> int \<Rightarrow> int \<Rightarrow> int \<Rightarrow> (pos \<times> block) list" where
  "roof_calls starting_pos platform_height platform_radius house_height =
     [(vadd starting_pos (x, platform_height + house_height, z), Block ''oak_slab'').
        x \<leftarrow> py_range (- platform_radius - 1) (platform_radius + 2),
        z \<leftarrow> py_range (- platform_radius - 1) (platform_radius + 2)]"

definition ladder_calls :: "pos \<Rightarrow> int \<Rightarrow> (pos \<times> block) list" where
  "ladder_calls starting_pos platform_height =
     [(vadd starting_pos (0, y, - 1), Block ''ladder''). y \<leftarrow> py_range 1 (platform_height + 3)]"

definition door_calls :: "pos \<Rightarrow> int \<Rightarrow> int \<Rightarrow> (pos \<times> block) list" where
  "door_calls starting_pos platform_height platform_radius =
     [(vadd starting_pos (1, platform_height + 1, - platform_radius), Block ''oak_fence_gate'')]"

definition leaf_places :: "pos \<Rightarrow> int \<Rightarrow> int \<Rightarrow> int \<Rightarrow> (pos \<times> block) list" where
  "leaf_places starting_pos platform_height platform_radius house_height =
     [(vadd starting_pos (x, platform_height + y, z), Block ''spruce_leaves'').
        y \<leftarrow> py_range 0 (house_height + 2),
        x \<leftarrow> py_range (- platform_radius - 1) (platform_radius + 2),
        z \<leftarrow> py_range (- platform_radius - 1) (platform_radius + 2),
        ((x = - platform_radius - 1 \<or> x = platform_radius + 1)
         \<or> (z = - platform_radius - 1 \<or> z = platform_radius + 1))
        \<or> y = house_height + 1]"

definition structure_calls :: "pos \<Rightarrow> int \<Rightarrow> int \<Rightarrow> int \<Rightarrow> int \<Rightarrow> block \<Rightarrow> (pos \<times> block) list" where
  "structure_calls starting_pos tree_height platform_height platform_radius house_height
       block_type =
     platform_calls starting_pos platform_height platform_radius
     @ wall_calls starting_pos platform_height platform_radius house_height block_type
     @ trunk_calls starting_pos tree_height
     @ window_calls starting_pos platform_height platform_radius house_height
     @ roof_calls starting_pos platform_height platform_radius house_height
     @ ladder_calls starting_pos platform_height
     @ door_calls starting_pos platform_height platform_radius"

text \<open>
  The calls \<open>clear_area\<close> issues for column \<open>(x, z)\<close> when it reaches the column in
  state \<open>s\<close>: the dirt block below the start depth, if there is one, and then the
  blocks from the start depth up to the surface.
\<close>

definition column_calls :: "state \<Rightarrow> ndarray \<Rightarrow> ndarray \<Rightarrow> rect \<Rightarrow> int \<Rightarrow> int \<Rightarrow> (pos \<times> block) list" where
  "column_calls s bottom top' buildRect x z =
     (case index2 bottom (x - fst (rect_offset buildRect), z - snd (rect_offset buildRect)) of
        Inl e \<Rightarrow> []
      | Inr start0 \<Rightarrow>
     (case index2 top' (x - fst (rect_offset buildRect), z - snd (rect_offset buildRect)) of
        Inl e \<Rightarrow> []
      | Inr end' \<Rightarrow>
          (let (start, block) = descent s x z (start0, getBlock s (x, start0 - 1, z))
           in (if py_in ''dirt'' (block_id block) then [((x, start - 1, z), Block ''air'')] else [])
              @ map (\<lambda>y. ((x, y, z), Block ''air'')) (py_range start end'))))"

text \<open>
  The calls of \<open>flatten_area\<close>: one grass block per column of the rectangle, at the
  height below the build area.
\<close>

definition flatten_calls :: "rect \<Rightarrow> box \<Rightarrow> (pos \<times> block) list" where
  "flatten_calls buildRect build_area =
     [((x, fst (snd (box_begin build_area)) - 1, z), Block ''grass_block'').
        x \<leftarrow> py_range (fst (rect_offset buildRect))
               (fst (rect_offset buildRect) + fst (rect_size buildRect)),
        z \<leftarrow> py_range (snd (rect_offset buildRect))
               (snd (rect_offset buildRect) + snd (rect_size buildRect))]"

section \<open>A small world to run the scripts on\<close>

text \<open>
  A build rectangle of two columns. In column \<open>(5, 7)\<close> a tree stands on a dirt block:
  dirt at height 1, logs at heights 2 and 3, leaves at height 4. Column \<open>(5, 8)\<close>
  has a grass block at height 1 and air above. Elsewhere there is stone up to height 0
  and air above. The two heightmaps hold, for each column, one more than the height of
  its topmost block, with and without leaves.
\<close>

definition example_world :: "pos \<Rightarrow> block" where
  "example_world p =
     (if p = (5, 1, 7) then Block ''minecraft:dirt''
      else if p = (5, 2, 7) \<or> p = (5, 3, 7) then Block ''minecraft:oak_log''
      else if p = (5, 4, 7) then Block ''minecraft:oak_leaves''
      else if p = (5, 1, 8) then Block ''minecraft:grass_block''
      else if fst (snd p) \<le> 0 then Block ''minecraft:stone''
      else Block ''minecraft:air'')"

definition example_bottom :: ndarray where
  "example_bottom = \<lparr>shape = (1, 2), cells = (\<lambda>ij. if ij = (0, 0) then 4 else 2)\<rparr>"

definition example_top :: ndarray where
  "example_top = \<lparr>shape = (1, 2), cells = (\<lambda>ij. if ij = (0, 0) then 5 else 2)\<rparr>"

definition example_state :: state where
  "example_state =
     \<lparr>world = example_world, calls = [],
      heightmaps = [''MOTION_BLOCKING_NO_LEAVES'' \<mapsto> example_bottom,
                    ''WORLD_SURFACE'' \<mapsto> example_top],
      stdout = [], rng = (\<lambda>n. if even n then 1 / 4 else 3 / 4)\<rparr>"

definition example_rect :: rect where
  "example_rect = \<lparr>rect_offset = (5, 7), rect_size = (1, 2)\<rparr>"

definition example_box :: box where
  "example_box = \<lparr>box_begin = (5, 0, 7), box_size = (1, 10, 2)\<rparr>"

text \<open>
  Two copies of the small world that differ only in what \<open>random.random()\<close> will
  return: always 0 in the first, always 3/4 in the second.
\<close>

definition heads_state :: state where
  "heads_state = example_state\<lparr>rng := (\<lambda>n. 0)\<rparr>"

definition tails_state :: state where
  "tails_state = example_state\<lparr>rng := (\<lambda>n. 3 / 4)\<rparr>"

text \<open>
  A build area as the script's own message suggests setting it, 65 by 65 columns and
  201 blocks high, with its corner at the origin.
\<close>

definition script_box :: box where
  "script_box = \<lparr>box_begin = (0, 0, 0), box_size = (65, 201, 65)\<rparr>"

section \<open>Termination of the boundary descent\<close>

declare descent.simps [simp del] descent_iterations.simps [simp del]

lemma descent_start_eq:
  "fst (descent s x z (start, block)) = start - int (descent_iterations s x z (start, block))"
proof (induction s x z "(start, block)" arbitrary: start block rule: descent.induct)
  case (1 s x z start block)
  show ?case
  proof (cases "in_tree block \<and> start > 0")
    case True
    then show ?thesis
      using 1 [OF True]
      by (simp add: descent.simps [of s x z start block]
            descent_iterations.simps [of s x z start block])
  next
    case False
    then show ?thesis
      by (auto simp add: descent.simps [of s x z start block]
            descent_iterations.simps [of s x z start block])
  qed
qed

lemma descent_iterations_le:
  "descent_iterations s x z (start, block) \<le> nat start"
proof (induction s x z "(start, block)" arbitrary: start block rule: descent_iterations.induct)
  case (1 s x z start block)
  show ?case
  proof (cases "in_tree block \<and> start > 0")
    case True
    moreover from True have "nat start = Suc (nat (start - 1))" by arith
    ultimately show ?thesis
      using 1 [OF True]
      by (simp add: descent_iterations.simps [of s x z start block])
  next
    case False
    then show ?thesis
      by (auto simp add: descent_iterations.simps [of s x z start block])
  qed
qed

lemma descent_stops:
  "\<not> (in_tree (snd (descent s x z (start, block))) \<and> 0 < fst (descent s x z (start, block)))"
proof (induction s x z "(start, block)" arbitrary: start block rule: descent.induct)
  case (1 s x z start block)
  show ?case
  proof (cases "in_tree block \<and> start > 0")
    case True
    then show ?thesis
      using 1 [OF True]
      by (simp add: descent.simps [of s x z start block])
  next
    case False
    then show ?thesis
      by (auto simp add: descent.simps [of s x z start block])
  qed
qed

text \<open>
  Claim C8. The boundary descent of \<open>clear_area\<close> terminates for every column and every
  block configuration. The loop is a total function of the state, the column, the
  starting depth and the block first read. Its body runs at most \<open>start\<close> times (not at
  all when \<open>start\<close> is zero or negative), every run of the body lowers \<open>start\<close> by
  exactly one, and when the loop ends either the block last read is no log, leaves or
  mushroom block or \<open>start\<close> is no longer positive.
\<close>

theorem descent_terminates:
  "descent_iterations s x z (start, block) \<le> nat start
   \<and> fst (descent s x z (start, block))
       = start - int (descent_iterations s x z (start, block))
   \<and> \<not> (in_tree (snd (descent s x z (start, block)))
          \<and> 0 < fst (descent s x z (start, block)))"
  using descent_iterations_le descent_start_eq descent_stops by blast

text \<open>
  On the tree of the small world the descent starts at depth 4, runs its body twice
  and stops at depth 2 on the dirt block.
\<close>

theorem descent_terminates_example:
  "descent_iterations example_state 5 7 (4, getBlock example_state (5, 3, 7)) = 2
   \<and> descent example_state 5 7 (4, getBlock example_state (5, 3, 7))
       = (2, Block ''minecraft:dirt'')"
  using descent_terminates [of example_state 5 7 4 "getBlock example_state (5, 3, 7)"]
  by (simp add: descent.simps descent_iterations.simps getBlock_def example_state_def
        example_world_def in_tree_def sublist_code)

section \<open>The editor's operations and loops over them\<close>

text \<open>
  What \<open>placeBlock\<close>, \<open>print\<close> and \<open>random\<close> do to each part of the state, and what
  a loop does whose body issues a known list of calls.
\<close>

lemma calls_placeBlock [simp]: "calls (placeBlock p b s) = calls s @ [(p, b)]"
  by (simp add: placeBlock_def)

lemma world_placeBlock [simp]: "world (placeBlock p b s) = (world s)(p := b)"
  by (simp add: placeBlock_def)

lemma heightmaps_placeBlock [simp]: "heightmaps (placeBlock p b s) = heightmaps s"
  by (simp add: placeBlock_def)

lemma rng_placeBlock [simp]: "rng (placeBlock p b s) = rng s"
  by (simp add: placeBlock_def)

lemma stdout_placeBlock [simp]: "stdout (placeBlock p b s) = stdout s"
  by (simp add: placeBlock_def)

lemma print_fields [simp]:
  "calls (print args s) = calls s" "world (print args s) = world s"
  "heightmaps (print args s) = heightmaps s" "rng (print args s) = rng s"
  by (simp_all add: print_def)

lemma random_fields [simp]:
  "calls (snd (random s)) = calls s" "world (snd (random s)) = world s"
  "heightmaps (snd (random s)) = heightmaps s" "stdout (snd (random s)) = stdout s"
  by (simp_all add: random_def)

lemma replay_simps [simp]:
  "replay [] w = w" "replay (c # cs) w = replay cs (w(fst c := snd c))"
  "replay (cs @ ds) w = replay ds (replay cs w)"
  by (simp_all add: replay_def)

lemma fold_calls:
  assumes "\<And>x s. calls (f x s) = calls s @ g x"
  shows "calls (fold f xs s) = calls s @ concat (map g xs)"
  using assms by (induction xs arbitrary: s) simp_all

lemma fold_world:
  assumes "\<And>x s. world (f x s) = replay (g x) (world s)"
  shows "world (fold f xs s) = replay (concat (map g xs)) (world s)"
  using assms by (induction xs arbitrary: s) simp_all

lemma fold_calls_map:
  assumes "\<And>x s. calls (f x s) = calls s @ [g x]"
  shows "calls (fold f xs s) = calls s @ map g xs"
  using assms by (induction xs arbitrary: s) simp_all

lemma fold_world_map:
  assumes "\<And>x s. world (f x s) = (world s)(fst (g x) := snd (g x))"
  shows "world (fold f xs s) = replay (map g xs) (world s)"
  using assms by (induction xs arbitrary: s) simp_all

lemma fold_keeps:
  assumes "\<And>x s. h (f x s) = h s"
  shows "h (fold f xs s) = h s"
  using assms by (induction xs arbitrary: s) simp_all

lemma new_calls_append: "calls s' = calls s @ cs \<Longrightarrow> new_calls s s' = cs"
  by (simp add: new_calls_def)

lemma set_py_range [simp]: "set (py_range a b) = {a..<b}"
  by (auto simp: py_range_def)

lemma distinct_py_range [simp]: "distinct (py_range a b)"
  by (simp add: py_range_def)

declare py_range2.simps [simp del]

lemma set_py_range2: "set (py_range2 a b) \<subseteq> {a..<b}"
proof (induction a b rule: py_range2.induct)
  case (1 a b)
  show ?case
  proof (cases "a < b")
    case True
    with 1 show ?thesis by (subst py_range2.simps) auto
  next
    case False
    then show ?thesis by (subst py_range2.simps) simp
  qed
qed

lemma distinct_py_range2 [simp]: "distinct (py_range2 a b)"
proof (induction a b rule: py_range2.induct)
  case (1 a b)
  show ?case
  proof (cases "a < b")
    case True
    moreover have "a \<notin> set (py_range2 (a + 2) b)"
      using set_py_range2 [of "a + 2" b] by auto
    ultimately show ?thesis using 1 by (subst py_range2.simps) simp
  next
    case False
    then show ?thesis by (subst py_range2.simps) simp
  qed
qed

section \<open>The calls of the passes of the tree house\<close>

lemma calls_platform_pass:
  "calls (platform_pass sp ph r s) = calls s @ platform_calls sp ph r"
  unfolding platform_pass_def platform_calls_def
  by (rule fold_calls, rule fold_calls) simp

lemma world_platform_pass:
  "world (platform_pass sp ph r s) = replay (platform_calls sp ph r) (world s)"
  unfolding platform_pass_def platform_calls_def
  by (rule fold_world, rule fold_world) simp

lemma calls_wall_pass:
  "calls (wall_pass sp ph r hh bt s) = calls s @ wall_calls sp ph r hh bt"
  unfolding wall_pass_def wall_calls_def
  by (rule fold_calls, rule fold_calls, rule fold_calls_map) simp

lemma world_wall_pass:
  "world (wall_pass sp ph r hh bt s) = replay (wall_calls sp ph r hh bt) (world s)"
  unfolding wall_pass_def wall_calls_def
  by (rule fold_world, rule fold_world, rule fold_world_map) simp

lemma calls_trunk_pass:
  "calls (trunk_pass sp th s) = calls s @ trunk_calls sp th"
  unfolding trunk_pass_def trunk_calls_def
  by (rule fold_calls_map) simp

lemma calls_window_pass:
  "calls (window_pass sp ph r hh s) = calls s @ window_calls sp ph r hh"
  unfolding window_pass_def window_calls_def
  by (rule fold_calls, rule fold_calls, rule fold_calls) simp

lemma calls_roof_pass:
  "calls (roof_pass sp ph r hh s) = calls s @ roof_calls sp ph r hh"
  unfolding roof_pass_def roof_calls_def
  by (rule fold_calls, rule fold_calls_map) simp

lemma calls_ladder_pass:
  "calls (ladder_pass sp ph s) = calls s @ ladder_calls sp ph"
  unfolding ladder_pass_def ladder_calls_def
  by (rule fold_calls_map) simp

lemma calls_door_pass:
  "calls (door_pass sp ph r s) = calls s @ door_calls sp ph r"
  by (simp add: door_pass_def door_calls_def)

lemma calls_structure_passes:
  "calls (structure_passes sp th ph r hh bt s) = calls s @ structure_calls sp th ph r hh bt"
  by (simp add: structure_passes_def structure_calls_def calls_platform_pass calls_wall_pass
        calls_trunk_pass calls_window_pass calls_roof_pass calls_ladder_pass calls_door_pass)

lemma fold_calls_subseq:
  assumes "\<And>x s. \<exists>ys. calls (f x s) = calls s @ ys \<and> subseq ys (g x)"
  shows "\<exists>ys. calls (fold f xs s) = calls s @ ys \<and> subseq ys (concat (map g xs))"
proof (induction xs arbitrary: s)
  case Nil
  show ?case by simp
next
  case (Cons x xs)
  obtain ys1 where 1: "calls (f x s) = calls s @ ys1" "subseq ys1 (g x)"
    using assms by blast
  obtain ys2 where 2: "calls (fold f xs (f x s)) = calls (f x s) @ ys2"
      "subseq ys2 (concat (map g xs))"
    using Cons.IH by blast
  have "subseq (ys1 @ ys2) (g x @ concat (map g xs))"
    using 1(2) 2(2) by (rule list_emb_append_mono)
  with 1 2 show ?case by auto
qed

lemma calls_leaf_pass:
  "\<exists>ys. calls (leaf_pass sp ph r hh s) = calls s @ ys \<and> subseq ys (leaf_places sp ph r hh)"
  unfolding leaf_pass_def leaf_places_def
  by (rule fold_calls_subseq, rule fold_calls_subseq, rule fold_calls_subseq)
     (simp add: random_def split: prod.split)

subsection \<open>The coordinates of a pass are pairwise distinct\<close>

text \<open>
  The calls of nested loops over distinct ranges are the image of the filtered product
  of the ranges; they target distinct coordinates when the coordinate determines the
  loop variables.
\<close>

lemma vadd_components:
  "vadd p q = (fst p + fst q, fst (snd p) + fst (snd q), snd (snd p) + snd (snd q))"
  by (cases p, cases q) auto

lemma vadd_inject [simp]: "vadd p q = vadd p q' \<longleftrightarrow> q = q'"
  by (cases p, cases q, cases q') auto

lemma replay_notin: "p \<notin> fst ` set cs \<Longrightarrow> replay cs w p = w p"
  by (induction cs arbitrary: w) auto

lemma replay_in:
  "distinct (map fst cs) \<Longrightarrow> (p, b) \<in> set cs \<Longrightarrow> replay cs w p = b"
proof (induction cs arbitrary: w)
  case Nil
  then show ?case by simp
next
  case (Cons c cs)
  show ?case
  proof (cases "c = (p, b)")
    case True
    with Cons.prems have "p \<notin> fst ` set cs" by auto
    then show ?thesis using True by (simp add: replay_notin)
  next
    case False
    with Cons show ?thesis by auto
  qed
qed

lemma concat_map_if:
  "concat (map (\<lambda>z. if P z then [g z] else []) zs) = map g (filter P zs)"
  by (induction zs) auto

lemma concat_map_product:
  "concat (map (\<lambda>x. map (g x) (filter (P x) zs)) xs)
     = map (\<lambda>(x, z). g x z) (filter (\<lambda>(x, z). P x z) (List.product xs zs))"
  by (induction xs) (simp_all add: filter_map o_def)

lemma distinct_places:
  assumes "distinct l" "inj_on f (set l)"
  shows "distinct (map fst (map (\<lambda>t. (f t, b t)) (filter P l)))"
proof -
  have "distinct (map f l)" using assms by (simp add: distinct_map)
  then have "distinct (map f (filter P l))" by (rule distinct_map_filter)
  then show ?thesis by (simp add: o_def)
qed

lemma loops3:
  "[(f y x z, b y x z). y \<leftarrow> ys, x \<leftarrow> xs, z \<leftarrow> zs, P y x z]
     = map (\<lambda>t. (case t of (y, x, z) \<Rightarrow> f y x z, case t of (y, x, z) \<Rightarrow> b y x z))
         (filter (\<lambda>(y, x, z). P y x z) (List.product ys (List.product xs zs)))"
proof -
  have "[(f y x z, b y x z). y \<leftarrow> ys, x \<leftarrow> xs, z \<leftarrow> zs, P y x z]
      = concat (map (\<lambda>y. concat (map (\<lambda>x. map (\<lambda>z. (f y x z, b y x z)) (filter (P y x) zs)) xs)) ys)"
    by (simp add: concat_map_if)
  also have "\<dots> = concat (map (\<lambda>y. map (\<lambda>(x, z). (f y x z, b y x z))
                        (filter (\<lambda>(x, z). P y x z) (List.product xs zs))) ys)"
    by (simp add: concat_map_product)
  also have "\<dots> = map (\<lambda>(y, (x, z)). (f y x z, b y x z))
                        (filter (\<lambda>(y, (x, z)). P y x z) (List.product ys (List.product xs zs)))"
    using concat_map_product [of "\<lambda>y (x, z). (f y x z, b y x z)" "\<lambda>y (x, z). P y x z"
        "List.product xs zs" ys]
    by simp
  finally show ?thesis by (simp add: case_prod_unfold)
qed

lemma loops2:
  "[(f x z, b x z). x \<leftarrow> xs, z \<leftarrow> zs, P x z]
     = map (\<lambda>t. (case t of (x, z) \<Rightarrow> f x z, case t of (x, z) \<Rightarrow> b x z))
         (filter (\<lambda>(x, z). P x z) (List.product xs zs))"
proof -
  have "[(f x z, b x z). x \<leftarrow> xs, z \<leftarrow> zs, P x z]
      = concat (map (\<lambda>x. map (\<lambda>z. (f x z, b x z)) (filter (P x) zs)) xs)"
    by (simp add: concat_map_if)
  also have "\<dots> = map (\<lambda>(x, z). (f x z, b x z))
                        (filter (\<lambda>(x, z). P x z) (List.product xs zs))"
    by (simp add: concat_map_product)
  finally show ?thesis by (simp add: case_prod_unfold)
qed

lemma distinct_loops3:
  assumes "distinct ys" "distinct xs" "distinct zs"
    and "\<And>y x z y' x' z'. f y x z = f y' x' z' \<Longrightarrow> y = y' \<and> x = x' \<and> z = z'"
  shows "distinct (map fst [(f y x z, b y x z). y \<leftarrow> ys, x \<leftarrow> xs, z \<leftarrow> zs, P y x z])"
  unfolding loops3
proof (rule distinct_places)
  show "distinct (List.product ys (List.product xs zs))"
    using assms(1-3) by (simp add: distinct_product)
  show "inj_on (\<lambda>t. case t of (y, x, z) \<Rightarrow> f y x z) (set (List.product ys (List.product xs zs)))"
    using assms(4) by (auto simp: inj_on_def)
qed

lemma distinct_loops2:
  assumes "distinct xs" "distinct zs"
    and "\<And>x z x' z'. f x z = f x' z' \<Longrightarrow> x = x' \<and> z = z'"
  shows "distinct (map fst [(f x z, b x z). x \<leftarrow> xs, z \<leftarrow> zs, P x z])"
  unfolding loops2
proof (rule distinct_places)
  show "distinct (List.product xs zs)"
    using assms(1-2) by (simp add: distinct_product)
  show "inj_on (\<lambda>t. case t of (x, z) \<Rightarrow> f x z) (set (List.product xs zs))"
    using assms(3) by (auto simp: inj_on_def)
qed

lemma distinct_platform_calls: "distinct (map fst (platform_calls sp ph r))"
  unfolding platform_calls_def
  by (rule distinct_loops2) auto

lemma distinct_window_calls: "distinct (map fst (window_calls sp ph r hh))"
  unfolding window_calls_def
  by (rule distinct_loops3) auto

lemma distinct_leaf_places: "distinct (map fst (leaf_places sp ph r hh))"
  unfolding leaf_places_def
  by (rule distinct_loops3) auto

lemma distinct_wall_calls: "distinct (map fst (wall_calls sp ph r hh bt))"
proof -
  have "wall_calls sp ph r hh bt =
     [(vadd sp (x, ph + 1 + y, z),
       if (x = - r \<or> x = r) \<or> (z = - r \<or> z = r) then bt else Block ''air'').
        y \<leftarrow> py_range 0 hh, x \<leftarrow> py_range (- r) (r + 1), z \<leftarrow> py_range (- r) (r + 1), True]"
    by (simp add: wall_calls_def)
  then show ?thesis
    by (simp only:) (rule distinct_loops3, auto)
qed

lemma distinct_roof_calls: "distinct (map fst (roof_calls sp ph r hh))"
proof -
  have "roof_calls sp ph r hh =
     [(vadd sp (x, ph + hh, z), Block ''oak_slab'').
        x \<leftarrow> py_range (- r - 1) (r + 2), z \<leftarrow> py_range (- r - 1) (r + 2), True]"
    by (simp add: roof_calls_def)
  then show ?thesis
    by (simp only:) (rule distinct_loops2, auto)
qed

lemma distinct_trunk_calls: "distinct (map fst (trunk_calls sp th))"
  by (simp add: trunk_calls_def distinct_map o_def inj_on_def)

lemma distinct_ladder_calls: "distinct (map fst (ladder_calls sp ph))"
  by (simp add: ladder_calls_def distinct_map o_def inj_on_def)

lemma subseq_distinct: "subseq xs ys \<Longrightarrow> distinct ys \<Longrightarrow> distinct xs"
  using subseqs_distinctD [of xs ys] by simp

lemma subseq_set: "subseq xs ys \<Longrightarrow> set xs \<subseteq> set ys"
  by (auto elim: list_emb_set)

section \<open>The platform and the walls\<close>

lemma set_platform_calls:
  "set (platform_calls sp ph r) =
     {(vadd sp (x, ph, z), Block ''oak_log'') | x z.
        - r \<le> x \<and> x \<le> r \<and> - r \<le> z \<and> z \<le> r \<and> x * x + z * z \<le> r * r}"
proof (intro set_eqI iffI)
  fix c assume "c \<in> set (platform_calls sp ph r)"
  then show "c \<in> {(vadd sp (x, ph, z), Block ''oak_log'') | x z.
        - r \<le> x \<and> x \<le> r \<and> - r \<le> z \<and> z \<le> r \<and> x * x + z * z \<le> r * r}"
    by (fastforce simp: platform_calls_def)
next
  fix c assume "c \<in> {(vadd sp (x, ph, z), Block ''oak_log'') | x z.
        - r \<le> x \<and> x \<le> r \<and> - r \<le> z \<and> z \<le> r \<and> x * x + z * z \<le> r * r}"
  then obtain x z where "c = (vadd sp (x, ph, z), Block ''oak_log'')"
    "- r \<le> x" "x \<le> r" "- r \<le> z" "z \<le> r" "x * x + z * z \<le> r * r" by blast
  then show "c \<in> set (platform_calls sp ph r)"
    by (force simp: platform_calls_def)
qed

lemma set_wall_calls:
  "set (wall_calls sp ph r hh bt) =
     {(vadd sp (x, ph + 1 + y, z),
       if (x = - r \<or> x = r) \<or> (z = - r \<or> z = r) then bt else Block ''air'') | x y z.
        0 \<le> y \<and> y < hh \<and> - r \<le> x \<and> x \<le> r \<and> - r \<le> z \<and> z \<le> r}"
  (is "?L = ?R")
proof (intro set_eqI iffI)
  fix c assume "c \<in> ?L"
  then show "c \<in> ?R"
    by (fastforce simp: wall_calls_def)
next
  fix c assume "c \<in> ?R"
  then obtain x y z where "c = (vadd sp (x, ph + 1 + y, z),
       if (x = - r \<or> x = r) \<or> (z = - r \<or> z = r) then bt else Block ''air'')"
    "0 \<le> y" "y < hh" "- r \<le> x" "x \<le> r" "- r \<le> z" "z \<le> r" by blast
  then show "c \<in> ?L"
    by (force simp: wall_calls_def)
qed

text \<open>
  Claim C3. The platform pass of \<open>build_treehouse\<close> places an \<open>oak_log\<close> block at
  \<open>starting_pos + (x, platform_height, z)\<close> for exactly the integer pairs \<open>(x, z)\<close>
  with \<open>-platform_radius \<le> x, z \<le> platform_radius\<close> and
  \<open>x * x + z * z \<le> platform_radius * platform_radius\<close>, and places nothing else: the
  calls of the pass follow those already recorded, they are exactly the calls of this
  set, and no coordinate is targeted twice.
\<close>

theorem platform_is_disc:
  "calls (platform_pass starting_pos platform_height platform_radius s)
     = calls s @ new_calls s (platform_pass starting_pos platform_height platform_radius s)
   \<and> set (new_calls s (platform_pass starting_pos platform_height platform_radius s))
     = {(vadd starting_pos (x, platform_height, z), Block ''oak_log'') | x z.
          - platform_radius \<le> x \<and> x \<le> platform_radius
          \<and> - platform_radius \<le> z \<and> z \<le> platform_radius
          \<and> x * x + z * z \<le> platform_radius * platform_radius}
   \<and> distinct (map fst (new_calls s (platform_pass starting_pos platform_height platform_radius s)))"
  by (simp add: new_calls_append [OF calls_platform_pass] calls_platform_pass
        set_platform_calls distinct_platform_calls)

lemma world_wall_calls:
  assumes "0 \<le> y" "y < hh" "- r \<le> x" "x \<le> r" "- r \<le> z" "z \<le> r"
  shows "world (wall_pass sp ph r hh bt s) (vadd sp (x, ph + 1 + y, z))
           = (if (x = - r \<or> x = r) \<or> (z = - r \<or> z = r) then bt else Block ''air'')"
proof -
  have "(vadd sp (x, ph + 1 + y, z),
         if (x = - r \<or> x = r) \<or> (z = - r \<or> z = r) then bt else Block ''air'')
        \<in> set (wall_calls sp ph r hh bt)"
    unfolding set_wall_calls using assms by blast
  then show ?thesis
    unfolding world_wall_pass by (rule replay_in [OF distinct_wall_calls])
qed

text \<open>
  Claim C4. The wall pass of \<open>build_treehouse\<close> places, for every \<open>y\<close> with
  \<open>0 \<le> y < house_height\<close> and every \<open>(x, z)\<close> of the square
  \<open>[-platform_radius, platform_radius]\<^sup>2\<close>, the block \<open>block_type\<close> at
  \<open>starting_pos + (x, platform_height + 1 + y, z)\<close> when \<open>x\<close> or \<open>z\<close> is
  \<open>-platform_radius\<close> or \<open>platform_radius\<close>, and air there otherwise. These are all
  the calls of the pass, each coordinate is targeted once, and after the pass the
  world holds a hollow square shell of height \<open>house_height\<close>.
\<close>

theorem walls_are_hollow_shell:
  "calls (wall_pass starting_pos platform_height platform_radius house_height block_type s)
     = calls s @ new_calls s
         (wall_pass starting_pos platform_height platform_radius house_height block_type s)
   \<and> set (new_calls s
         (wall_pass starting_pos platform_height platform_radius house_height block_type s))
     = {(vadd starting_pos (x, platform_height + 1 + y, z),
         if (x = - platform_radius \<or> x = platform_radius)
            \<or> (z = - platform_radius \<or> z = platform_radius)
         then block_type else Block ''air'') | x y z.
          0 \<le> y \<and> y < house_height
          \<and> - platform_radius \<le> x \<and> x \<le> platform_radius
          \<and> - platform_radius \<le> z \<and> z \<le> platform_radius}
   \<and> distinct (map fst (new_calls s
         (wall_pass starting_pos platform_height platform_radius house_height block_type s)))
   \<and> (\<forall>x y z. 0 \<le> y \<and> y < house_height
          \<and> - platform_radius \<le> x \<and> x \<le> platform_radius
          \<and> - platform_radius \<le> z \<and> z \<le> platform_radius
        \<longrightarrow> world (wall_pass starting_pos platform_height platform_radius house_height
                    block_type s)
               (vadd starting_pos (x, platform_height + 1 + y, z))
            = (if (x = - platform_radius \<or> x = platform_radius)
                  \<or> (z = - platform_radius \<or> z = platform_radius)
               then block_type else Block ''air''))"
  by (simp add: new_calls_append [OF calls_wall_pass] calls_wall_pass
        set_wall_calls distinct_wall_calls world_wall_calls)

text \<open>
  With radius 3 and height 4 above a platform at height 10, as the script calls the
  builder, the wall at the corner of the build area holds the wall block on the rim and
  air inside.
\<close>

theorem walls_are_hollow_shell_example:
  "world (wall_pass (5, 0, 7) 10 3 4 (Block ''oak_log'') example_state) (8, 12, 6)
     = Block ''oak_log''
   \<and> world (wall_pass (5, 0, 7) 10 3 4 (Block ''oak_log'') example_state) (6, 14, 9)
     = Block ''air''"
proof -
  have w: "\<forall>x y z. 0 \<le> y \<and> y < 4 \<and> - 3 \<le> x \<and> x \<le> 3 \<and> - 3 \<le> z \<and> z \<le> 3
        \<longrightarrow> world (wall_pass (5, 0, 7) 10 3 4 (Block ''oak_log'') example_state)
               (vadd (5, 0, 7) (x, 10 + 1 + y, z))
            = (if (x = - 3 \<or> x = 3) \<or> (z = - 3 \<or> z = 3)
               then Block ''oak_log'' else Block ''air'')"
    using walls_are_hollow_shell [of "(5, 0, 7)" 10 3 4 "Block ''oak_log''" example_state]
    by blast
  from w [rule_format, of 1 3 "- 1"] w [rule_format, of 3 1 2]
  show ?thesis by simp
qed

section \<open>One call per voxel\<close>

lemma new_calls_leaf_pass:
  "\<exists>ys. new_calls s (leaf_pass sp ph r hh s) = ys \<and> subseq ys (leaf_places sp ph r hh)"
  using calls_leaf_pass [of sp ph r hh s] by (auto simp: new_calls_def)

lemma calls_build_treehouse:
  "\<exists>ys. calls (build_treehouse sp th ph r hh bt s)
          = calls s @ structure_calls sp th ph r hh bt @ ys
        \<and> subseq ys (leaf_places sp ph r hh)"
  using calls_leaf_pass [of sp ph r hh "structure_passes sp th ph r hh bt s"]
  by (auto simp: build_treehouse_def calls_structure_passes)

lemma centre_in_platform_calls:
  "0 \<le> r \<Longrightarrow> vadd sp (0, ph, 0) \<in> fst ` set (platform_calls sp ph r)"
  unfolding set_platform_calls by force

lemma centre_in_trunk_calls:
  "0 \<le> ph \<Longrightarrow> ph < th \<Longrightarrow> vadd sp (0, ph, 0) \<in> fst ` set (trunk_calls sp th)"
  by (force simp: trunk_calls_def)

lemma structure_calls_repeat:
  assumes "0 \<le> r" "0 \<le> ph" "ph < th"
  shows "\<not> distinct (map fst (structure_calls sp th ph r hh bt))"
  using centre_in_platform_calls [OF assms(1), of sp ph]
    centre_in_trunk_calls [OF assms(2,3), of sp]
  by (auto simp: structure_calls_def)

lemma build_treehouse_repeat:
  assumes "0 \<le> r" "0 \<le> ph" "ph < th"
  shows "\<not> distinct (map fst (new_calls s (build_treehouse sp th ph r hh bt s)))"
proof -
  obtain ys where "calls (build_treehouse sp th ph r hh bt s)
          = calls s @ structure_calls sp th ph r hh bt @ ys"
    using calls_build_treehouse by blast
  then have "new_calls s (build_treehouse sp th ph r hh bt s) = structure_calls sp th ph r hh bt @ ys"
    by (rule new_calls_append)
  then show ?thesis
    using structure_calls_repeat [OF assms, of sp hh bt] by simp
qed

text \<open>
  Claim C5 as stated fails. Called as the script calls it, the builder places the
  centre block of the platform, \<open>starting_pos + (0, 10, 0)\<close>, in the platform pass and
  again in the trunk pass.
\<close>

theorem treehouse_targets_coordinate_twice:
  "\<not> distinct (map fst (new_calls example_state
        (build_treehouse (5, 0, 7) 15 10 3 4 (Block ''oak_log'') example_state)))"
  by (rule build_treehouse_repeat) simp_all

text \<open>
  Claim C5, amended. Every call places one block, and within each of the eight passes
  of \<open>build_treehouse\<close> no coordinate is targeted twice: the coordinates of the calls
  of the platform pass are pairwise distinct, and so are those of the wall, trunk,
  window, roof, ladder, door and leaf passes. Nothing is said about a coordinate that
  two different passes target.
\<close>

theorem each_pass_targets_coordinate_once:
  "distinct (map fst (new_calls s (platform_pass sp ph r s)))
   \<and> distinct (map fst (new_calls s (wall_pass sp ph r hh bt s)))
   \<and> distinct (map fst (new_calls s (trunk_pass sp th s)))
   \<and> distinct (map fst (new_calls s (window_pass sp ph r hh s)))
   \<and> distinct (map fst (new_calls s (roof_pass sp ph r hh s)))
   \<and> distinct (map fst (new_calls s (ladder_pass sp ph s)))
   \<and> distinct (map fst (new_calls s (door_pass sp ph r s)))
   \<and> distinct (map fst (new_calls s (leaf_pass sp ph r hh s)))"
proof -
  obtain ys where ys: "new_calls s (leaf_pass sp ph r hh s) = ys"
      "subseq ys (leaf_places sp ph r hh)"
    using new_calls_leaf_pass by blast
  have "subseq (map fst ys) (map fst (leaf_places sp ph r hh))"
    using ys(2) by (rule subseq_map)
  then have "distinct (map fst ys)"
    using distinct_leaf_places by (rule subseq_distinct)
  then show ?thesis
    by (simp add: ys new_calls_append [OF calls_platform_pass]
          new_calls_append [OF calls_wall_pass] new_calls_append [OF calls_trunk_pass]
          new_calls_append [OF calls_window_pass] new_calls_append [OF calls_roof_pass]
          new_calls_append [OF calls_ladder_pass] new_calls_append [OF calls_door_pass]
          distinct_platform_calls distinct_wall_calls distinct_trunk_calls
          distinct_window_calls distinct_roof_calls distinct_ladder_calls door_calls_def)
qed

text \<open>
  The window pass as the script calls the builder, with radius 3 and house height 4 on
  a platform at height 10: its calls, none of them at a coordinate of another.
\<close>

theorem each_pass_targets_coordinate_once_example:
  "new_calls example_state (window_pass (5, 0, 7) 10 3 4 example_state)
     = [((2, 11, 4), Block ''glass''), ((2, 11, 6), Block ''glass''),
        ((2, 11, 8), Block ''glass''), ((4, 11, 4), Block ''glass''),
        ((6, 11, 4), Block ''glass''), ((2, 12, 4), Block ''glass''),
        ((2, 12, 6), Block ''glass''), ((2, 12, 8), Block ''glass''),
        ((4, 12, 4), Block ''glass''), ((6, 12, 4), Block ''glass'')]
   \<and> distinct (map fst (new_calls example_state (window_pass (5, 0, 7) 10 3 4 example_state)))"
  using each_pass_targets_coordinate_once
    [of example_state "(5, 0, 7)" 10 3 4 "Block ''oak_log''" 15]
  by (simp add: new_calls_append [OF calls_window_pass] window_calls_def py_range_def
        py_range2.simps upto.simps)

section \<open>Determinism of the passes before the leaves\<close>

lemma rng_structure_passes:
  "rng (structure_passes sp th ph r hh bt s) = rng s"
proof -
  have 1: "rng (platform_pass sp ph r s) = rng s" for s
    unfolding platform_pass_def by (rule fold_keeps, rule fold_keeps) simp
  have 2: "rng (wall_pass sp ph r hh bt s) = rng s" for s
    unfolding wall_pass_def by (rule fold_keeps, rule fold_keeps, rule fold_keeps) simp
  have 3: "rng (trunk_pass sp th s) = rng s" for s
    unfolding trunk_pass_def by (rule fold_keeps) simp
  have 4: "rng (window_pass sp ph r hh s) = rng s" for s
    unfolding window_pass_def by (rule fold_keeps, rule fold_keeps, rule fold_keeps) simp
  have 5: "rng (roof_pass sp ph r hh s) = rng s" for s
    unfolding roof_pass_def by (rule fold_keeps, rule fold_keeps) simp
  have 6: "rng (ladder_pass sp ph s) = rng s" for s
    unfolding ladder_pass_def by (rule fold_keeps) simp
  have 7: "rng (door_pass sp ph r s) = rng s" for s
    unfolding door_pass_def by simp
  show ?thesis
    by (simp add: structure_passes_def 1 2 3 4 5 6 7)
qed

lemma new_calls_structure_passes:
  "new_calls s (structure_passes sp th ph r hh bt s) = structure_calls sp th ph r hh bt"
  by (rule new_calls_append) (rule calls_structure_passes)

lemma leaves_differ:
  "new_calls heads_state (build_treehouse (0, 0, 0) 0 0 0 0 (Block ''oak_log'') heads_state)
   \<noteq> new_calls tails_state (build_treehouse (0, 0, 0) 0 0 0 0 (Block ''oak_log'') tails_state)"
proof -
  have "length (new_calls heads_state
          (build_treehouse (0, 0, 0) 0 0 0 0 (Block ''oak_log'') heads_state)) = 30"
    by code_simp
  moreover have "length (new_calls tails_state
          (build_treehouse (0, 0, 0) 0 0 0 0 (Block ''oak_log'') tails_state)) = 13"
    by code_simp
  ultimately show ?thesis by auto
qed

text \<open>
  Claim C10. Every pass of \<open>build_treehouse\<close> before the leaf pass is deterministic.
  For equal arguments, whatever the two editors hold and whatever the random source
  will return in the two runs, the platform, wall, trunk, window, roof, ladder and door
  passes issue the same sequence of calls; they draw no random number; and the calls of
  a whole run are these calls followed by those of the leaf pass. The leaf pass does
  depend on the random source: two runs from the same world with different random
  numbers can issue different calls.
\<close>

theorem structure_passes_deterministic:
  "new_calls s1 (structure_passes sp th ph r hh bt s1)
     = new_calls s2 (structure_passes sp th ph r hh bt s2)
   \<and> rng (structure_passes sp th ph r hh bt s1) = rng s1
   \<and> (\<exists>ys. new_calls s1 (build_treehouse sp th ph r hh bt s1)
              = new_calls s1 (structure_passes sp th ph r hh bt s1) @ ys)
   \<and> (\<exists>t1 t2 sp' th' ph' r' hh' bt'.
          world t1 = world t2 \<and> calls t1 = calls t2 \<and> heightmaps t1 = heightmaps t2
          \<and> new_calls t1 (build_treehouse sp' th' ph' r' hh' bt' t1)
              \<noteq> new_calls t2 (build_treehouse sp' th' ph' r' hh' bt' t2))"
proof -
  obtain ys where "calls (build_treehouse sp th ph r hh bt s1)
          = calls s1 @ structure_calls sp th ph r hh bt @ ys"
    using calls_build_treehouse by blast
  then have "new_calls s1 (build_treehouse sp th ph r hh bt s1)
          = structure_calls sp th ph r hh bt @ ys"
    by (rule new_calls_append)
  moreover have "world heads_state = world tails_state \<and> calls heads_state = calls tails_state
      \<and> heightmaps heads_state = heightmaps tails_state"
    by (simp add: heads_state_def tails_state_def)
  ultimately show ?thesis
    using leaves_differ
    by (simp add: new_calls_structure_passes rng_structure_passes) blast
qed

section \<open>The calls of the area clearing utility\<close>

text \<open>
  A run of \<open>clear_area\<close> that returns has issued, column after column, the calls of
  \<open>column_calls\<close>. The calls of a column only touch that column, and the descent of
  a column only reads it, so the calls of every column can be computed on the state
  the run started from.
\<close>

lemma final_for_each_invariant:
  assumes "I s" and "\<And>x s. x \<in> set xs \<Longrightarrow> I s \<Longrightarrow> I (final (body x s))"
  shows "I (final (for_each xs body s))"
  using assms
proof (induction xs arbitrary: s)
  case Nil
  then show ?case by simp
next
  case (Cons x xs)
  have step: "I (final (body x s))" using Cons.prems by simp
  show ?case
  proof (cases "body x s")
    case (Done s1)
    with step have "I s1" by simp
    then have "I (final (for_each xs body s1))"
      using Cons.prems(2) by (intro Cons.IH) auto
    with Done show ?thesis by simp
  next
    case (Raised e s1)
    with step show ?thesis by simp
  qed
qed

lemma fold_placeBlock:
  "calls (fold (\<lambda>y. placeBlock (p y) b) ys s) = calls s @ map (\<lambda>y. (p y, b)) ys"
  "world (fold (\<lambda>y. placeBlock (p y) b) ys s) = replay (map (\<lambda>y. (p y, b)) ys) (world s)"
  "heightmaps (fold (\<lambda>y. placeBlock (p y) b) ys s) = heightmaps s"
  by (induction ys arbitrary: s) simp_all

lemma final_clear_column:
  "calls (final (clear_column bottom top' r x z s)) = calls s @ column_calls s bottom top' r x z"
  "world (final (clear_column bottom top' r x z s))
     = replay (column_calls s bottom top' r x z) (world s)"
  "heightmaps (final (clear_column bottom top' r x z s)) = heightmaps s"
  by (auto simp: clear_column_def column_calls_def fold_placeBlock
        split: sum.split prod.split)

lemma descent_cong:
  assumes "\<And>y. world s (x, y, z) = world t (x, y, z)"
  shows "descent s x z (start, block) = descent t x z (start, block)"
  using assms
proof (induction s x z "(start, block)" arbitrary: start block rule: descent.induct)
  case (1 s x z start block)
  show ?case
  proof (cases "in_tree block \<and> start > 0")
    case True
    have "descent s x z (start - 1, getBlock s (x, (start - 1) - 1, z))
        = descent t x z (start - 1, getBlock s (x, (start - 1) - 1, z))"
      using True "1.prems" by (intro "1.hyps") auto
    moreover have "getBlock s (x, (start - 1) - 1, z) = getBlock t (x, (start - 1) - 1, z)"
      using "1.prems" by (simp add: getBlock_def)
    ultimately show ?thesis
      using True
      by (simp add: descent.simps [of s x z start block] descent.simps [of t x z start block])
  next
    case False
    then show ?thesis
      by (auto simp add: descent.simps [of s x z start block]
            descent.simps [of t x z start block])
  qed
qed

lemma column_calls_cong:
  assumes "\<And>y. world s (x, y, z) = world t (x, y, z)"
  shows "column_calls s bottom top' r x z = column_calls t bottom top' r x z"
proof -
  have "descent s x z (start0, getBlock s (x, start0 - 1, z))
      = descent t x z (start0, getBlock t (x, start0 - 1, z))" for start0
    using descent_cong [of s x z t start0 "getBlock s (x, start0 - 1, z)"] assms
    by (simp add: getBlock_def)
  then show ?thesis
    by (simp add: column_calls_def split: sum.split)
qed

lemma column_calls_in_column:
  "c \<in> set (column_calls s bottom top' r x z)
     \<Longrightarrow> fst (fst c) = x \<and> snd (snd (fst c)) = z \<and> snd c = Block ''air''"
  by (auto simp: column_calls_def split: sum.splits prod.splits if_splits)

lemma replay_cong_at: "w p = w' p \<Longrightarrow> replay cs w p = replay cs w' p"
proof (induction cs arbitrary: w w')
  case Nil
  then show ?case by simp
next
  case (Cons c cs)
  have "(w(fst c := snd c)) p = (w'(fst c := snd c)) p"
    using Cons.prems by simp
  then have "replay cs (w(fst c := snd c)) p = replay cs (w'(fst c := snd c)) p"
    by (rule Cons.IH)
  then show ?case by simp
qed

lemma replay_filter: "replay cs w p = replay (filter (\<lambda>c. fst c = p) cs) w p"
proof (induction cs arbitrary: w)
  case Nil
  show ?case by simp
next
  case (Cons c cs)
  have IH: "replay cs (w(fst c := snd c)) p
      = replay (filter (\<lambda>c. fst c = p) cs) (w(fst c := snd c)) p"
    by (rule Cons.IH)
  show ?case
  proof (cases "fst c = p")
    case True
    have "filter (\<lambda>c. fst c = p) (c # cs) = c # filter (\<lambda>c. fst c = p) cs"
      using True by simp
    then show ?thesis using IH by (simp only: replay_simps)
  next
    case False
    have "(w(fst c := snd c)) p = w p" using False by simp
    then have "replay (filter (\<lambda>c. fst c = p) cs) (w(fst c := snd c)) p
        = replay (filter (\<lambda>c. fst c = p) cs) w p"
      by (rule replay_cong_at)
    moreover have "filter (\<lambda>c. fst c = p) (c # cs) = filter (\<lambda>c. fst c = p) cs"
      using False by simp
    ultimately show ?thesis using IH by (simp only: replay_simps)
  qed
qed

lemma replay_same:
  assumes "\<forall>c \<in> set cs. snd c = b" "p \<in> fst ` set cs"
  shows "replay cs w p = b"
  using assms
proof (induction cs arbitrary: w)
  case Nil
  then show ?case by simp
next
  case (Cons c cs)
  show ?case
  proof (cases "p \<in> fst ` set cs")
    case True
    moreover have "\<forall>c \<in> set cs. snd c = b" using Cons.prems(1) by simp
    ultimately have "replay cs (w(fst c := snd c)) p = b" by (rule Cons.IH [rotated])
    then show ?thesis by simp
  next
    case False
    with Cons.prems have c: "fst c = p" "snd c = b" by auto
    have "replay cs (w(fst c := snd c)) p = (w(fst c := snd c)) p"
      using False by (rule replay_notin)
    then show ?thesis using c by simp
  qed
qed

lemma filter_concat_none:
  assumes "\<And>x c. x \<in> set xs \<Longrightarrow> c \<in> set (f x) \<Longrightarrow> \<not> P c"
  shows "filter P (concat (map f xs)) = []"
  using assms by (induction xs) (auto simp: filter_empty_conv)

lemma filter_concat_one:
  assumes "distinct xs" "x0 \<in> set xs"
    and "\<And>c. c \<in> set (f x0) \<Longrightarrow> P c"
    and "\<And>x c. x \<in> set xs \<Longrightarrow> x \<noteq> x0 \<Longrightarrow> c \<in> set (f x) \<Longrightarrow> \<not> P c"
  shows "filter P (concat (map f xs)) = f x0"
  using assms
proof (induction xs)
  case Nil
  then show ?case by simp
next
  case (Cons x xs)
  show ?case
  proof (cases "x = x0")
    case True
    with Cons.prems have "x0 \<notin> set xs" by simp
    then have "filter P (concat (map f xs)) = []"
      using Cons.prems(4) by (intro filter_concat_none) auto
    moreover have "filter P (f x0) = f x0"
      using Cons.prems(3) by (simp add: filter_id_conv)
    ultimately show ?thesis using True by simp
  next
    case False
    with Cons.prems have "x0 \<in> set xs" "distinct xs" by auto
    then have "filter P (concat (map f xs)) = f x0"
      using Cons.prems(3,4) by (intro Cons.IH) auto
    moreover have "filter P (f x) = []"
      using Cons.prems(4) [of x] False by (auto simp: filter_empty_conv)
    ultimately show ?thesis by simp
  qed
qed

lemma for_each_columns:
  assumes "distinct zs" "for_each zs (clear_column bottom top' r x) s = Done s'"
  shows "calls s' = calls s @ concat (map (column_calls s bottom top' r x) zs)
         \<and> world s' = replay (concat (map (column_calls s bottom top' r x) zs)) (world s)"
  using assms
proof (induction zs arbitrary: s)
  case Nil
  then show ?case by simp
next
  case (Cons z zs)
  from Cons.prems(2) obtain s1 where s1: "clear_column bottom top' r x z s = Done s1"
      and rest: "for_each zs (clear_column bottom top' r x) s1 = Done s'"
    by (auto split: outcome.splits)
  have c1: "calls s1 = calls s @ column_calls s bottom top' r x z"
    and w1: "world s1 = replay (column_calls s bottom top' r x z) (world s)"
    using final_clear_column(1,2) [of bottom top' r x z s] s1 by simp_all
  have same: "column_calls s1 bottom top' r x z' = column_calls s bottom top' r x z'"
    if "z' \<in> set zs" for z'
  proof (rule column_calls_cong)
    fix y
    have "z' \<noteq> z" using that Cons.prems(1) by auto
    then have "(x, y, z') \<notin> fst ` set (column_calls s bottom top' r x z)"
      by (auto dest: column_calls_in_column)
    then show "world s1 (x, y, z') = world s (x, y, z')"
      unfolding w1 by (rule replay_notin)
  qed
  have m: "map (column_calls s1 bottom top' r x) zs = map (column_calls s bottom top' r x) zs"
    using same by simp
  have ih: "calls s' = calls s1 @ concat (map (column_calls s1 bottom top' r x) zs)
         \<and> world s' = replay (concat (map (column_calls s1 bottom top' r x) zs)) (world s1)"
    using Cons.prems(1) rest by (intro Cons.IH) auto
  show ?case
    using ih unfolding m c1 w1 by simp
qed

lemma for_each_rows:
  assumes "distinct xs" "distinct zs"
    "for_each xs (\<lambda>x. for_each zs (clear_column bottom top' r x)) s = Done s'"
  shows "calls s' = calls s @ concat (map (\<lambda>x. concat (map (column_calls s bottom top' r x) zs)) xs)
         \<and> world s' = replay (concat (map (\<lambda>x. concat (map (column_calls s bottom top' r x) zs)) xs))
                        (world s)"
  using assms(1,3)
proof (induction xs arbitrary: s)
  case Nil
  then show ?case by simp
next
  case (Cons x xs)
  from Cons.prems(2) obtain s1 where s1: "for_each zs (clear_column bottom top' r x) s = Done s1"
      and rest: "for_each xs (\<lambda>x. for_each zs (clear_column bottom top' r x)) s1 = Done s'"
    by (auto split: outcome.splits)
  have c1: "calls s1 = calls s @ concat (map (column_calls s bottom top' r x) zs)"
    and w1: "world s1 = replay (concat (map (column_calls s bottom top' r x) zs)) (world s)"
    using for_each_columns [OF assms(2) s1] by simp_all
  have same: "column_calls s1 bottom top' r x' z = column_calls s bottom top' r x' z"
    if "x' \<in> set xs" for x' z
  proof (rule column_calls_cong)
    fix y
    have "x' \<noteq> x" using that Cons.prems(1) by auto
    then have "(x', y, z) \<notin> fst ` set (concat (map (column_calls s bottom top' r x) zs))"
      by (auto dest: column_calls_in_column)
    then show "world s1 (x', y, z) = world s (x', y, z)"
      unfolding w1 by (rule replay_notin)
  qed
  have m: "map (\<lambda>x. concat (map (column_calls s1 bottom top' r x) zs)) xs
      = map (\<lambda>x. concat (map (column_calls s bottom top' r x) zs)) xs"
  proof (rule map_cong [OF refl])
    fix x' assume "x' \<in> set xs"
    then have "column_calls s1 bottom top' r x' = column_calls s bottom top' r x'"
      using same by auto
    then show "concat (map (column_calls s1 bottom top' r x') zs)
        = concat (map (column_calls s bottom top' r x') zs)"
      by simp
  qed
  have ih: "calls s' = calls s1 @ concat (map (\<lambda>x. concat (map (column_calls s1 bottom top' r x) zs)) xs)
         \<and> world s' = replay (concat (map (\<lambda>x. concat (map (column_calls s1 bottom top' r x) zs)) xs))
                        (world s1)"
    using Cons.prems(1) rest by (intro Cons.IH) auto
  show ?case
    using ih unfolding m c1 w1 by simp
qed

lemma clear_area_Done:
  assumes "clear_area hm r ba s = Done s'"
  shows "\<exists>bottom top'.
     heightmaps s ''MOTION_BLOCKING_NO_LEAVES'' = Some bottom
     \<and> heightmaps s ''WORLD_SURFACE'' = Some top'
     \<and> new_calls s s'
         = concat (map (\<lambda>x. concat (map (column_calls s bottom top' r x)
               (py_range (snd (rect_offset r)) (snd (rect_offset r) + snd (rect_size r)))))
             (py_range (fst (rect_offset r)) (fst (rect_offset r) + fst (rect_size r))))
     \<and> world s' = replay (new_calls s s') (world s)"
proof -
  from assms obtain bottom top' s1 where
    b: "heightmaps s ''MOTION_BLOCKING_NO_LEAVES'' = Some bottom"
    and t: "heightmaps s ''WORLD_SURFACE'' = Some top'"
    and loop: "for_each
             (py_range (fst (rect_offset r)) (fst (rect_offset r) + fst (rect_size r)))
             (\<lambda>x. for_each
                (py_range (snd (rect_offset r)) (snd (rect_offset r) + snd (rect_size r)))
                (clear_column bottom top' r x)) s = Done s1"
    and s': "s' = print [PStr ''Done!''] s1"
    by (auto simp: clear_area_def split: option.splits outcome.splits)
  note rows = for_each_rows [OF distinct_py_range distinct_py_range loop]
  have "calls s' = calls s @ concat (map (\<lambda>x. concat (map (column_calls s bottom top' r x)
               (py_range (snd (rect_offset r)) (snd (rect_offset r) + snd (rect_size r)))))
             (py_range (fst (rect_offset r)) (fst (rect_offset r) + fst (rect_size r))))"
    using rows by (simp add: s')
  then have n: "new_calls s s' = concat (map (\<lambda>x. concat (map (column_calls s bottom top' r x)
               (py_range (snd (rect_offset r)) (snd (rect_offset r) + snd (rect_size r)))))
             (py_range (fst (rect_offset r)) (fst (rect_offset r) + fst (rect_size r))))"
    by (rule new_calls_append)
  have "world s' = replay (new_calls s s') (world s)"
    unfolding n using rows by (simp add: s')
  with b t n show ?thesis by blast
qed

lemma clear_area_column:
  assumes run: "clear_area hm r ba s = Done s'"
    and b: "heightmaps s ''MOTION_BLOCKING_NO_LEAVES'' = Some bottom"
    and t: "heightmaps s ''WORLD_SURFACE'' = Some top'"
    and col: "in_rect r (x, y0, z)"
  shows "filter (\<lambda>c. fst (fst c) = x \<and> snd (snd (fst c)) = z) (new_calls s s')
           = column_calls s bottom top' r x z"
    and "world s' (x, y, z) = replay (column_calls s bottom top' r x z) (world s) (x, y, z)"
proof -
  let ?xs = "py_range (fst (rect_offset r)) (fst (rect_offset r) + fst (rect_size r))"
  let ?zs = "py_range (snd (rect_offset r)) (snd (rect_offset r) + snd (rect_size r))"
  let ?P = "\<lambda>c :: pos \<times> block. fst (fst c) = x \<and> snd (snd (fst c)) = z"
  from clear_area_Done [OF run] b t
  have n: "new_calls s s' = concat (map (\<lambda>x. concat (map (column_calls s bottom top' r x) ?zs)) ?xs)"
    and w: "world s' = replay (new_calls s s') (world s)"
    by auto
  have x: "x \<in> set ?xs" and z: "z \<in> set ?zs"
    using col by (auto simp: in_rect_def)
  have inner: "filter ?P (concat (map (column_calls s bottom top' r x) ?zs))
      = column_calls s bottom top' r x z"
    by (rule filter_concat_one [OF distinct_py_range z])
       (auto dest: column_calls_in_column)
  have "filter (\<lambda>c. fst (fst c) = x) (new_calls s s')
      = concat (map (column_calls s bottom top' r x) ?zs)"
    unfolding n
    by (rule filter_concat_one [OF distinct_py_range x])
       (auto dest: column_calls_in_column)
  then have "filter ?P (filter (\<lambda>c. fst (fst c) = x) (new_calls s s'))
      = column_calls s bottom top' r x z"
    using inner by simp
  moreover have "filter ?P (filter (\<lambda>c. fst (fst c) = x) (new_calls s s'))
      = filter ?P (new_calls s s')"
    by (auto simp: filter_filter intro: filter_cong)
  ultimately have "filter ?P (new_calls s s') = column_calls s bottom top' r x z"
    by simp
  then show f: "filter ?P (new_calls s s') = column_calls s bottom top' r x z" .
  have "filter (\<lambda>c. fst c = (x, y, z)) (new_calls s s')
      = filter (\<lambda>c. fst c = (x, y, z)) (filter ?P (new_calls s s'))"
    by (auto simp: filter_filter intro: filter_cong)
  then have "replay (filter (\<lambda>c. fst c = (x, y, z)) (new_calls s s')) (world s) (x, y, z)
      = replay (filter (\<lambda>c. fst c = (x, y, z)) (column_calls s bottom top' r x z)) (world s) (x, y, z)"
    unfolding f by simp
  then show "world s' (x, y, z) = replay (column_calls s bottom top' r x z) (world s) (x, y, z)"
    unfolding w
    using replay_filter [of "new_calls s s'" "world s" "(x, y, z)"]
      replay_filter [of "column_calls s bottom top' r x z" "world s" "(x, y, z)"]
    by simp
qed

lemma descent_chain:
  assumes "block = getBlock s (x, start - 1, z)"
    and "descent s x z (start, block) = (start', block')"
  shows "start' \<le> start \<and> block' = getBlock s (x, start' - 1, z)
     \<and> (\<forall>k. start' < k \<and> k \<le> start \<longrightarrow> in_tree (getBlock s (x, k - 1, z)) \<and> 0 < k)"
  using assms
proof (induction s x z "(start, block)" arbitrary: start block rule: descent.induct)
  case (1 s x z start block)
  show ?case
  proof (cases "in_tree block \<and> start > 0")
    case True
    have d: "descent s x z (start - 1, getBlock s (x, (start - 1) - 1, z)) = (start', block')"
      using True "1.prems"(2) by (simp add: descent.simps [of s x z start block])
    have ih: "start' \<le> start - 1 \<and> block' = getBlock s (x, start' - 1, z)
       \<and> (\<forall>k. start' < k \<and> k \<le> start - 1
             \<longrightarrow> in_tree (getBlock s (x, k - 1, z)) \<and> 0 < k)"
      using True d by (intro "1.hyps") auto
    have "in_tree (getBlock s (x, k - 1, z)) \<and> 0 < k" if "start' < k" "k \<le> start" for k
    proof (cases "k = start")
      case True
      then show ?thesis using \<open>in_tree block \<and> start > 0\<close> "1.prems"(1) by simp
    next
      case False
      then show ?thesis using that ih by auto
    qed
    then show ?thesis using ih by auto
  next
    case False
    then have "start' = start" "block' = block"
      using "1.prems"(2) by (auto simp add: descent.simps [of s x z start block])
    then show ?thesis using "1.prems"(1) by auto
  qed
qed

subsection \<open>When a run returns\<close>

lemma for_each_returns:
  assumes "\<And>x s. x \<in> set xs \<Longrightarrow> \<exists>s'. body x s = Done s'"
  shows "\<exists>s'. for_each xs body s = Done s'"
  using assms
proof (induction xs arbitrary: s)
  case Nil
  show ?case by simp
next
  case (Cons x xs)
  obtain s1 where "body x s = Done s1" using Cons.prems by fastforce
  moreover have "\<exists>s'. for_each xs body s1 = Done s'"
    using Cons.prems by (intro Cons.IH) auto
  ultimately show ?case by simp
qed

lemma index2_in_range:
  assumes "0 \<le> i" "i < int (fst (shape a))" "0 \<le> j" "j < int (snd (shape a))"
  shows "\<exists>v. index2 a (i, j) = Inr v"
  using assms by (cases "shape a") (auto simp: index2_def)

text \<open>
  \<open>clear_area\<close> returns whenever the world slice holds both heightmaps and each of
  them covers the build rectangle. Without one of the heightmaps it raises
  \<open>KeyError\<close> before it places a block.
\<close>

lemma clear_area_returns:
  assumes "heightmaps s ''MOTION_BLOCKING_NO_LEAVES'' = Some bottom"
    and "heightmaps s ''WORLD_SURFACE'' = Some top'"
    and "fst (rect_size r) \<le> int (fst (shape bottom))"
    and "snd (rect_size r) \<le> int (snd (shape bottom))"
    and "fst (rect_size r) \<le> int (fst (shape top'))"
    and "snd (rect_size r) \<le> int (snd (shape top'))"
  shows "\<exists>s'. clear_area hm r ba s = Done s'"
proof -
  define xs where "xs = py_range (fst (rect_offset r)) (fst (rect_offset r) + fst (rect_size r))"
  define zs where "zs = py_range (snd (rect_offset r)) (snd (rect_offset r) + snd (rect_size r))"
  have column: "\<exists>s'. clear_column bottom top' r x z t = Done s'"
    if "x \<in> set xs" "z \<in> set zs" for x z t
  proof -
    have i: "0 \<le> x - fst (rect_offset r)" "x - fst (rect_offset r) < fst (rect_size r)"
      "0 \<le> z - snd (rect_offset r)" "z - snd (rect_offset r) < snd (rect_size r)"
      using that by (auto simp: xs_def zs_def)
    obtain v where v: "index2 bottom (x - fst (rect_offset r), z - snd (rect_offset r)) = Inr v"
      using index2_in_range [of "x - fst (rect_offset r)" bottom "z - snd (rect_offset r)"]
        i assms(3,4) by auto
    obtain u where u: "index2 top' (x - fst (rect_offset r), z - snd (rect_offset r)) = Inr u"
      using index2_in_range [of "x - fst (rect_offset r)" top' "z - snd (rect_offset r)"]
        i assms(5,6) by auto
    show ?thesis
      by (simp add: clear_column_def v u split: prod.split)
  qed
  have "\<exists>s'. for_each xs (\<lambda>x. for_each zs (clear_column bottom top' r x)) s = Done s'"
    by (intro for_each_returns column)
  then show ?thesis
    by (auto simp: clear_area_def assms(1,2) xs_def zs_def)
qed

lemma clear_area_KeyError:
  assumes "heightmaps s ''MOTION_BLOCKING_NO_LEAVES'' = None
           \<or> heightmaps s ''WORLD_SURFACE'' = None"
  shows "clear_area hm r ba s = Raised KeyError s"
  using assms by (auto simp: clear_area_def split: option.split)

section \<open>What the area clearing utility does to a column\<close>

lemma column_calls_explicit:
  assumes "index2 bottom (x - fst (rect_offset r), z - snd (rect_offset r)) = Inr start0"
    and "index2 top' (x - fst (rect_offset r), z - snd (rect_offset r)) = Inr end'"
    and "descent s x z (start0, getBlock s (x, start0 - 1, z)) = (start, block)"
  shows "column_calls s bottom top' r x z
     = (if py_in ''dirt'' (block_id block) then [((x, start - 1, z), Block ''air'')] else [])
       @ map (\<lambda>y. ((x, y, z), Block ''air'')) (py_range start end')"
  using assms by (simp add: column_calls_def)

lemma column_positions:
  "fst ` set ((if d then [((x, start - 1, z), Block ''air'')] else [])
             @ map (\<lambda>y. ((x, y, z), Block ''air'')) (py_range start end'))
     = {(x, y, z) | y. (d \<and> y = start - 1) \<or> (start \<le> y \<and> y < end')}"
  by (cases d) force+

text \<open>
  Claim C1. For every column \<open>(x, z)\<close> of the build rectangle, a run of \<open>clear_area\<close>
  that returns sets to air every block at height \<open>y\<close> with \<open>start \<le> y < end\<close>, where
  \<open>end\<close> is the column's value in the \<open>WORLD_SURFACE\<close> heightmap and \<open>start\<close> is the
  column's value in the \<open>MOTION_BLOCKING_NO_LEAVES\<close> heightmap after the boundary
  descent. The calls of the run that target the column are the call for the dirt
  block at \<open>start - 1\<close>, if the block read there is dirt, followed by the calls of the
  loop over \<open>y\<close>, one for each height from \<open>start\<close> up to \<open>end - 1\<close>. No block of the
  column at or above \<open>end\<close>, or below \<open>start\<close>, other than that dirt block, is
  targeted by a call or changed.
\<close>

theorem clear_area_clears_column:
  assumes "clear_area heightmap buildRect build_area s = Done s'"
    and "heightmaps s ''MOTION_BLOCKING_NO_LEAVES'' = Some bottom"
    and "heightmaps s ''WORLD_SURFACE'' = Some top'"
    and "in_rect buildRect (x, 0, z)"
    and "index2 bottom (x - fst (rect_offset buildRect), z - snd (rect_offset buildRect))
           = Inr start0"
    and "index2 top' (x - fst (rect_offset buildRect), z - snd (rect_offset buildRect))
           = Inr end'"
    and "descent s x z (start0, getBlock s (x, start0 - 1, z)) = (start, block)"
  shows "(\<forall>y. start \<le> y \<and> y < end'
            \<longrightarrow> ((x, y, z), Block ''air'') \<in> set (new_calls s s')
                \<and> world s' (x, y, z) = Block ''air'')
     \<and> filter (\<lambda>c. fst (fst c) = x \<and> snd (snd (fst c)) = z) (new_calls s s')
         = (if py_in ''dirt'' (block_id block)
            then [((x, start - 1, z), Block ''air'')] else [])
           @ map (\<lambda>y. ((x, y, z), Block ''air'')) (py_range start end')
     \<and> (\<forall>y. (y < start \<or> end' \<le> y) \<and> \<not> (y = start - 1 \<and> py_in ''dirt'' (block_id block))
            \<longrightarrow> (x, y, z) \<notin> fst ` set (new_calls s s')
                \<and> world s' (x, y, z) = world s (x, y, z))"
proof -
  define P where "P = (\<lambda>c :: pos \<times> block. fst (fst c) = x \<and> snd (snd (fst c)) = z)"
  define cs where "cs = (if py_in ''dirt'' (block_id block)
            then [((x, start - 1, z), Block ''air'')] else [])
           @ map (\<lambda>y. ((x, y, z), Block ''air'')) (py_range start end')"
  have cc: "column_calls s bottom top' buildRect x z = cs"
    unfolding cs_def using assms(5-7) by (rule column_calls_explicit)
  have f: "filter P (new_calls s s') = cs"
    using clear_area_column(1) [OF assms(1-4)] cc by (simp add: P_def)
  have w: "world s' (x, y, z) = replay cs (world s) (x, y, z)" for y
    using clear_area_column(2) [OF assms(1-4)] cc by simp
  have air: "\<forall>c \<in> set cs. snd c = Block ''air''"
    by (auto simp: cs_def)
  have pos: "fst ` set cs
      = {(x, y, z) | y. (py_in ''dirt'' (block_id block) \<and> y = start - 1)
                        \<or> (start \<le> y \<and> y < end')}"
    unfolding cs_def by (rule column_positions)
  have loop: "((x, y, z), Block ''air'') \<in> set cs" if "start \<le> y" "y < end'" for y
    using that by (simp add: cs_def)
  have sub: "set cs \<subseteq> set (new_calls s s')"
    using f by (metis filter_is_subset)
  have only: "c \<in> set cs" if "c \<in> set (new_calls s s')" "fst c = (x, y, z)" for c y
  proof -
    have "P c" using that(2) by (simp add: P_def)
    with that(1) have "c \<in> set (filter P (new_calls s s'))" by simp
    then show ?thesis by (simp only: f)
  qed
  have 1: "((x, y, z), Block ''air'') \<in> set (new_calls s s') \<and> world s' (x, y, z) = Block ''air''"
    if "start \<le> y" "y < end'" for y
  proof
    show "((x, y, z), Block ''air'') \<in> set (new_calls s s')"
      using loop [OF that] sub by (rule subsetD [rotated])
    have "(x, y, z) \<in> fst ` set cs" unfolding pos using that by blast
    then show "world s' (x, y, z) = Block ''air''"
      unfolding w by (rule replay_same [OF air])
  qed
  have 3: "(x, y, z) \<notin> fst ` set (new_calls s s') \<and> world s' (x, y, z) = world s (x, y, z)"
    if "y < start \<or> end' \<le> y" "\<not> (y = start - 1 \<and> py_in ''dirt'' (block_id block))" for y
  proof
    have n: "(x, y, z) \<notin> fst ` set cs" unfolding pos using that by auto
    show "(x, y, z) \<notin> fst ` set (new_calls s s')"
    proof
      assume "(x, y, z) \<in> fst ` set (new_calls s s')"
      then obtain c where c: "c \<in> set (new_calls s s')" "fst c = (x, y, z)" by auto
      then have "c \<in> set cs" by (rule only)
      then have "fst c \<in> fst ` set cs" by (rule imageI)
      with c(2) n show False by simp
    qed
    show "world s' (x, y, z) = world s (x, y, z)"
      unfolding w using n by (rule replay_notin)
  qed
  have A: "\<forall>y. start \<le> y \<and> y < end'
            \<longrightarrow> ((x, y, z), Block ''air'') \<in> set (new_calls s s')
                \<and> world s' (x, y, z) = Block ''air''"
    using 1 by blast
  have C: "\<forall>y. (y < start \<or> end' \<le> y) \<and> \<not> (y = start - 1 \<and> py_in ''dirt'' (block_id block))
            \<longrightarrow> (x, y, z) \<notin> fst ` set (new_calls s s')
                \<and> world s' (x, y, z) = world s (x, y, z)"
    using 3 by blast
  show ?thesis
    using A f C unfolding P_def cs_def by (intro conjI)
qed

text \<open>
  On the small world the run returns. In the column of the tree the descent ends at
  depth 2 on the dirt block, so the run replaces the dirt block at height 1 and the
  blocks at heights 2, 3 and 4, and leaves the stone at height 0 alone.
\<close>

theorem clear_area_clears_column_example:
  "filter (\<lambda>c. fst (fst c) = 5 \<and> snd (snd (fst c)) = 7)
     (new_calls example_state
        (final (clear_area example_bottom example_rect example_box example_state)))
     = [((5, 1, 7), Block ''air''), ((5, 2, 7), Block ''air''),
        ((5, 3, 7), Block ''air''), ((5, 4, 7), Block ''air'')]
   \<and> world (final (clear_area example_bottom example_rect example_box example_state)) (5, 3, 7)
       = Block ''air''
   \<and> world (final (clear_area example_bottom example_rect example_box example_state)) (5, 0, 7)
       = Block ''minecraft:stone''"
proof -
  have "case clear_area example_bottom example_rect example_box example_state of
          Done s' \<Rightarrow> True | Raised e s' \<Rightarrow> False"
    by code_simp
  then obtain s' where run:
    "clear_area example_bottom example_rect example_box example_state = Done s'"
    by (auto split: outcome.splits)
  have b: "heightmaps example_state ''MOTION_BLOCKING_NO_LEAVES'' = Some example_bottom"
    and t: "heightmaps example_state ''WORLD_SURFACE'' = Some example_top"
    by (simp_all add: example_state_def)
  have col: "in_rect example_rect (5, 0, 7)"
    by (simp add: in_rect_def example_rect_def)
  have i1: "index2 example_bottom
      (5 - fst (rect_offset example_rect), 7 - snd (rect_offset example_rect)) = Inr 4"
    and i2: "index2 example_top
      (5 - fst (rect_offset example_rect), 7 - snd (rect_offset example_rect)) = Inr 5"
    by (simp_all add: index2_def example_rect_def example_bottom_def example_top_def)
  have d: "descent example_state 5 7 (4, getBlock example_state (5, 4 - 1, 7))
      = (2, Block ''minecraft:dirt'')"
    by (simp add: descent.simps getBlock_def example_state_def example_world_def
          in_tree_def sublist_code)
  note c = clear_area_clears_column [OF run b t col i1 i2 d]
  have dirt: "py_in ''dirt'' (block_id (Block ''minecraft:dirt''))"
    by (simp add: sublist_code)
  have "world s' (5, 0, 7) = world example_state (5, 0, 7)"
    using c [THEN conjunct2, THEN conjunct2, rule_format, of 0] by simp
  then have "world s' (5, 0, 7) = Block ''minecraft:stone''"
    by (simp add: example_state_def example_world_def)
  moreover have "world s' (5, 3, 7) = Block ''air''"
    using c [THEN conjunct1, rule_format, of 3] by simp
  moreover have "filter (\<lambda>c. fst (fst c) = 5 \<and> snd (snd (fst c)) = 7)
       (new_calls example_state s')
     = [((5, 1, 7), Block ''air''), ((5, 2, 7), Block ''air''),
        ((5, 3, 7), Block ''air''), ((5, 4, 7), Block ''air'')]"
    using c [THEN conjunct2, THEN conjunct1] dirt by (simp add: py_range_def)
  ultimately show ?thesis by (simp add: run)
qed

text \<open>
  Claim C2. In \<open>clear_area\<close> the start depth of a column is reached from the column's
  value \<open>start0\<close> in the \<open>MOTION_BLOCKING_NO_LEAVES\<close> heightmap by lowering \<open>start\<close>
  while the block at \<open>(x, start - 1, z)\<close> has an id containing \<open>log\<close>, \<open>leaves\<close> or
  \<open>mushroom\<close> and \<open>start > 0\<close>: every depth passed on the way down had such a block
  below it and was positive, and at the depth reached the test fails. If the block
  below the depth reached has an id containing \<open>dirt\<close>, that one block is replaced
  with air; otherwise it is left as it was. Nothing deeper in the column is touched.
\<close>

theorem clear_area_boundary:
  assumes "clear_area heightmap buildRect build_area s = Done s'"
    and "heightmaps s ''MOTION_BLOCKING_NO_LEAVES'' = Some bottom"
    and "heightmaps s ''WORLD_SURFACE'' = Some top'"
    and "in_rect buildRect (x, 0, z)"
    and "index2 bottom (x - fst (rect_offset buildRect), z - snd (rect_offset buildRect))
           = Inr start0"
    and "index2 top' (x - fst (rect_offset buildRect), z - snd (rect_offset buildRect))
           = Inr end'"
    and "descent s x z (start0, getBlock s (x, start0 - 1, z)) = (start, block)"
  shows "start \<le> start0 \<and> block = getBlock s (x, start - 1, z)
     \<and> (\<forall>k. start < k \<and> k \<le> start0 \<longrightarrow> in_tree (getBlock s (x, k - 1, z)) \<and> 0 < k)
     \<and> \<not> (in_tree block \<and> 0 < start)
     \<and> (py_in ''dirt'' (block_id block)
          \<longrightarrow> ((x, start - 1, z), Block ''air'') \<in> set (new_calls s s')
              \<and> world s' (x, start - 1, z) = Block ''air'')
     \<and> (\<not> py_in ''dirt'' (block_id block)
          \<longrightarrow> (x, start - 1, z) \<notin> fst ` set (new_calls s s')
              \<and> world s' (x, start - 1, z) = world s (x, start - 1, z))
     \<and> (\<forall>y. y < start - 1
          \<longrightarrow> (x, y, z) \<notin> fst ` set (new_calls s s')
              \<and> world s' (x, y, z) = world s (x, y, z))"
proof -
  define P where "P = (\<lambda>c :: pos \<times> block. fst (fst c) = x \<and> snd (snd (fst c)) = z)"
  define cs where "cs = (if py_in ''dirt'' (block_id block)
            then [((x, start - 1, z), Block ''air'')] else [])
           @ map (\<lambda>y. ((x, y, z), Block ''air'')) (py_range start end')"
  have cc: "column_calls s bottom top' buildRect x z = cs"
    unfolding cs_def using assms(5-7) by (rule column_calls_explicit)
  have f: "filter P (new_calls s s') = cs"
    using clear_area_column(1) [OF assms(1-4)] cc by (simp add: P_def)
  have w: "world s' (x, y, z) = replay cs (world s) (x, y, z)" for y
    using clear_area_column(2) [OF assms(1-4)] cc by simp
  have air: "\<forall>c \<in> set cs. snd c = Block ''air''"
    by (auto simp: cs_def)
  have pos: "fst ` set cs
      = {(x, y, z) | y. (py_in ''dirt'' (block_id block) \<and> y = start - 1)
                        \<or> (start \<le> y \<and> y < end')}"
    unfolding cs_def by (rule column_positions)
  have sub: "set cs \<subseteq> set (new_calls s s')"
    using f by (metis filter_is_subset)
  have only: "c \<in> set cs" if "c \<in> set (new_calls s s')" "fst c = (x, y, z)" for c y
  proof -
    have "P c" using that(2) by (simp add: P_def)
    with that(1) have "c \<in> set (filter P (new_calls s s'))" by simp
    then show ?thesis by (simp only: f)
  qed
  have untouched: "(x, y, z) \<notin> fst ` set (new_calls s s') \<and> world s' (x, y, z) = world s (x, y, z)"
    if n: "(x, y, z) \<notin> fst ` set cs" for y
  proof
    show "(x, y, z) \<notin> fst ` set (new_calls s s')"
    proof
      assume "(x, y, z) \<in> fst ` set (new_calls s s')"
      then obtain c where c: "c \<in> set (new_calls s s')" "fst c = (x, y, z)" by auto
      then have "c \<in> set cs" by (rule only)
      then have "fst c \<in> fst ` set cs" by (rule imageI)
      with c(2) n show False by simp
    qed
    show "world s' (x, y, z) = world s (x, y, z)"
      unfolding w using n by (rule replay_notin)
  qed
  note chain = descent_chain [OF refl assms(7)]
  have stop: "\<not> (in_tree block \<and> 0 < start)"
    using descent_stops [of s x z start0 "getBlock s (x, start0 - 1, z)"] assms(7) by simp
  have dirt: "((x, start - 1, z), Block ''air'') \<in> set (new_calls s s')
              \<and> world s' (x, start - 1, z) = Block ''air''"
    if "py_in ''dirt'' (block_id block)"
  proof
    have "((x, start - 1, z), Block ''air'') \<in> set cs" using that by (simp add: cs_def)
    then show "((x, start - 1, z), Block ''air'') \<in> set (new_calls s s')"
      using sub by (rule subsetD [rotated])
    have "(x, start - 1, z) \<in> fst ` set cs" unfolding pos using that by blast
    then show "world s' (x, start - 1, z) = Block ''air''"
      unfolding w by (rule replay_same [OF air])
  qed
  have nodirt: "(x, start - 1, z) \<notin> fst ` set (new_calls s s')
              \<and> world s' (x, start - 1, z) = world s (x, start - 1, z)"
    if "\<not> py_in ''dirt'' (block_id block)"
  proof (rule untouched)
    show "(x, start - 1, z) \<notin> fst ` set cs" unfolding pos using that by auto
  qed
  have deeper: "(x, y, z) \<notin> fst ` set (new_calls s s') \<and> world s' (x, y, z) = world s (x, y, z)"
    if "y < start - 1" for y
  proof (rule untouched)
    show "(x, y, z) \<notin> fst ` set cs" unfolding pos using that by auto
  qed
  show ?thesis
    using chain stop dirt nodirt deeper by blast
qed

text \<open>
  On the small world: in the column of the tree the descent passes the two logs and
  stops on the dirt block, which is replaced with air; in the other column the block
  below the start depth is a grass block, whose id does not contain \<open>dirt\<close>, and it
  stays.
\<close>

theorem clear_area_boundary_example:
  "world (final (clear_area example_bottom example_rect example_box example_state)) (5, 1, 7)
     = Block ''air''
   \<and> world (final (clear_area example_bottom example_rect example_box example_state)) (5, 1, 8)
     = Block ''minecraft:grass_block''"
proof -
  have "case clear_area example_bottom example_rect example_box example_state of
          Done s' \<Rightarrow> True | Raised e s' \<Rightarrow> False"
    by code_simp
  then obtain s' where run:
    "clear_area example_bottom example_rect example_box example_state = Done s'"
    by (auto split: outcome.splits)
  have b: "heightmaps example_state ''MOTION_BLOCKING_NO_LEAVES'' = Some example_bottom"
    and t: "heightmaps example_state ''WORLD_SURFACE'' = Some example_top"
    by (simp_all add: example_state_def)
  have col: "in_rect example_rect (5, 0, 7)" "in_rect example_rect (5, 0, 8)"
    by (simp_all add: in_rect_def example_rect_def)
  have i1: "index2 example_bottom
      (5 - fst (rect_offset example_rect), 7 - snd (rect_offset example_rect)) = Inr 4"
    and i2: "index2 example_top
      (5 - fst (rect_offset example_rect), 7 - snd (rect_offset example_rect)) = Inr 5"
    and j1: "index2 example_bottom
      (5 - fst (rect_offset example_rect), 8 - snd (rect_offset example_rect)) = Inr 2"
    and j2: "index2 example_top
      (5 - fst (rect_offset example_rect), 8 - snd (rect_offset example_rect)) = Inr 2"
    by (simp_all add: index2_def example_rect_def example_bottom_def example_top_def)
  have d: "descent example_state 5 7 (4, getBlock example_state (5, 4 - 1, 7))
      = (2, Block ''minecraft:dirt'')"
    and e: "descent example_state 5 8 (2, getBlock example_state (5, 2 - 1, 8))
      = (2, Block ''minecraft:grass_block'')"
    by (simp_all add: descent.simps getBlock_def example_state_def example_world_def
          in_tree_def sublist_code)
  note c7 = clear_area_boundary [OF run b t col(1) i1 i2 d]
  note c8 = clear_area_boundary [OF run b t col(2) j1 j2 e]
  have "world s' (5, 1, 7) = Block ''air''"
    using c7 by (simp add: sublist_code)
  moreover have "world s' (5, 1, 8) = world example_state (5, 1, 8)"
    using c8 by (simp add: sublist_code)
  then have "world s' (5, 1, 8) = Block ''minecraft:grass_block''"
    by (simp add: example_state_def example_world_def)
  ultimately show ?thesis by (simp add: run)
qed

section \<open>The heightmaps are only read\<close>

lemma heightmaps_clear_area:
  "heightmaps (final (clear_area hm r ba s)) = heightmaps s"
proof -
  have inner: "heightmaps (final (for_each zs (clear_column bottom top' r x) t)) = heightmaps s"
    if "heightmaps t = heightmaps s" for zs bottom top' x t
    using that
    by (rule final_for_each_invariant [where I = "\<lambda>t. heightmaps t = heightmaps s"])
       (simp add: final_clear_column)
  have outer: "heightmaps (final (for_each xs (\<lambda>x. for_each zs (clear_column bottom top' r x)) s))
      = heightmaps s" for xs zs bottom top'
    by (rule final_for_each_invariant [where I = "\<lambda>t. heightmaps t = heightmaps s"])
       (simp_all add: inner)
  show ?thesis
  proof (cases "heightmaps s ''MOTION_BLOCKING_NO_LEAVES''")
    case None
    then show ?thesis by (simp add: clear_area_def)
  next
    case (Some bottom)
    note b = this
    show ?thesis
    proof (cases "heightmaps s ''WORLD_SURFACE''")
      case None
      then show ?thesis using b by (simp add: clear_area_def)
    next
      case (Some top')
      define out where "out = for_each
          (py_range (fst (rect_offset r)) (fst (rect_offset r) + fst (rect_size r)))
          (\<lambda>x. for_each
             (py_range (snd (rect_offset r)) (snd (rect_offset r) + snd (rect_size r)))
             (clear_column bottom top' r x)) s"
      have o: "heightmaps (final out) = heightmaps s"
        unfolding out_def by (rule outer)
      have ca: "clear_area hm r ba s
          = (case out of Raised e s' \<Rightarrow> Raised e s'
             | Done s' \<Rightarrow> Done (print [PStr ''Done!''] s'))"
        by (simp add: clear_area_def b Some out_def)
      show ?thesis
        using o unfolding ca by (cases out) simp_all
    qed
  qed
qed

lemma heightmaps_flatten_area:
  "heightmaps (flatten_area hm r ba s) = heightmaps s"
proof -
  have "heightmaps (fold (\<lambda>x. fold (\<lambda>z s. placeBlock (x, y0, z) (Block ''grass_block'')
            (print [PStr (block_id (getBlock s (x, y0, z)))] s)) zs) xs t) = heightmaps t"
    for xs zs y0 t
    by (rule fold_keeps, rule fold_keeps) simp
  then show ?thesis
    by (simp add: flatten_area_def Let_def)
qed

lemma heightmaps_build_treehouse:
  "heightmaps (build_treehouse sp th ph r hh bt s) = heightmaps s"
proof -
  have 1: "heightmaps (platform_pass sp ph r s) = heightmaps s" for s
    unfolding platform_pass_def by (rule fold_keeps, rule fold_keeps) simp
  have 2: "heightmaps (wall_pass sp ph r hh bt s) = heightmaps s" for s
    unfolding wall_pass_def by (rule fold_keeps, rule fold_keeps, rule fold_keeps) simp
  have 3: "heightmaps (trunk_pass sp th s) = heightmaps s" for s
    unfolding trunk_pass_def by (rule fold_keeps) simp
  have 4: "heightmaps (window_pass sp ph r hh s) = heightmaps s" for s
    unfolding window_pass_def by (rule fold_keeps, rule fold_keeps, rule fold_keeps) simp
  have 5: "heightmaps (roof_pass sp ph r hh s) = heightmaps s" for s
    unfolding roof_pass_def by (rule fold_keeps, rule fold_keeps) simp
  have 6: "heightmaps (ladder_pass sp ph s) = heightmaps s" for s
    unfolding ladder_pass_def by (rule fold_keeps) simp
  have 7: "heightmaps (door_pass sp ph r s) = heightmaps s" for s
    unfolding door_pass_def by simp
  have 8: "heightmaps (leaf_pass sp ph r hh s) = heightmaps s" for s
    unfolding leaf_pass_def
    by (rule fold_keeps, rule fold_keeps, rule fold_keeps)
       (simp add: random_def split: prod.split)
  show ?thesis
    by (simp add: build_treehouse_def structure_passes_def 1 2 3 4 5 6 7 8)
qed

text \<open>
  Claim C7. The heightmaps are only read. After a run of \<open>clear_area\<close>, whether it
  returns or raises, after \<open>flatten_area\<close>, after \<open>build_treehouse\<close> and after the
  tree-house script the heightmap arrays of the world slice are what they were before.
\<close>

theorem heightmaps_read_only:
  "heightmaps (final (clear_area heightmap buildRect build_area s)) = heightmaps s
   \<and> heightmaps (flatten_area heightmap buildRect build_area s) = heightmaps s
   \<and> heightmaps (build_treehouse starting_pos tree_height platform_height platform_radius
         house_height block_type s) = heightmaps s
   \<and> heightmaps (final (tree_house_script buildArea s)) = heightmaps s"
  by (simp add: heightmaps_clear_area heightmaps_flatten_area heightmaps_build_treehouse
        tree_house_script_def split: option.split)

section \<open>Where the calls land\<close>

lemma clear_area_calls_in_rect:
  "\<exists>cs. calls (final (clear_area hm r ba s)) = calls s @ cs
        \<and> (\<forall>c \<in> set cs. in_rect r (fst c))"
proof -
  define I where "I = (\<lambda>t :: state. \<exists>cs. calls t = calls s @ cs \<and> (\<forall>c \<in> set cs. in_rect r (fst c)))"
  define xs where "xs = py_range (fst (rect_offset r)) (fst (rect_offset r) + fst (rect_size r))"
  define zs where "zs = py_range (snd (rect_offset r)) (snd (rect_offset r) + snd (rect_size r))"
  have I0: "I s" by (simp add: I_def)
  have column: "I (final (clear_column bottom top' r x z t))"
    if "I t" "x \<in> set xs" "z \<in> set zs" for bottom top' x z t
  proof -
    from that(1) obtain cs where cs: "calls t = calls s @ cs" "\<forall>c \<in> set cs. in_rect r (fst c)"
      unfolding I_def by blast
    have "in_rect r (fst c)" if "c \<in> set (column_calls t bottom top' r x z)" for c
      using column_calls_in_column [OF that] \<open>x \<in> set xs\<close> \<open>z \<in> set zs\<close>
      by (simp add: in_rect_def xs_def zs_def)
    then have "\<forall>c \<in> set (cs @ column_calls t bottom top' r x z). in_rect r (fst c)"
      using cs(2) by auto
    moreover have "calls (final (clear_column bottom top' r x z t))
        = calls s @ (cs @ column_calls t bottom top' r x z)"
      by (simp add: final_clear_column cs(1))
    ultimately show ?thesis unfolding I_def by blast
  qed
  have row: "I (final (for_each zs (clear_column bottom top' r x) t))"
    if "I t" "x \<in> set xs" for bottom top' x t
    using that(1)
    by (rule final_for_each_invariant) (rule column [OF _ that(2)])
  have all: "I (final (for_each xs (\<lambda>x. for_each zs (clear_column bottom top' r x)) s))"
    for bottom top'
    using I0
    by (rule final_for_each_invariant) (rule row [rotated])
  have "I (final (clear_area hm r ba s))"
  proof (cases "heightmaps s ''MOTION_BLOCKING_NO_LEAVES''")
    case None
    then show ?thesis using I0 by (simp add: clear_area_def)
  next
    case (Some bottom)
    note b = this
    show ?thesis
    proof (cases "heightmaps s ''WORLD_SURFACE''")
      case None
      then show ?thesis using I0 b by (simp add: clear_area_def)
    next
      case (Some top')
      define out where "out = for_each xs (\<lambda>x. for_each zs (clear_column bottom top' r x)) s"
      have o: "I (final out)"
        unfolding out_def by (rule all)
      have ca: "clear_area hm r ba s
          = (case out of Raised e s' \<Rightarrow> Raised e s'
             | Done s' \<Rightarrow> Done (print [PStr ''Done!''] s'))"
        by (simp add: clear_area_def b Some out_def xs_def zs_def)
      show ?thesis
        using o unfolding ca by (cases out) (simp_all add: I_def)
    qed
  qed
  then show ?thesis unfolding I_def .
qed

lemma py_range2_bounds: "x \<in> set (py_range2 a b) \<Longrightarrow> a \<le> x \<and> x < b"
  using set_py_range2 [of a b] by auto

lemma structure_calls_near:
  assumes "0 \<le> r" "c \<in> set (structure_calls sp th ph r hh bt)"
  shows "\<bar>fst (fst c) - fst sp\<bar> \<le> r + 1 \<and> \<bar>snd (snd (fst c)) - snd (snd sp)\<bar> \<le> r + 1"
  using assms
  by (auto simp: structure_calls_def platform_calls_def wall_calls_def trunk_calls_def
        window_calls_def roof_calls_def ladder_calls_def door_calls_def vadd_components
        dest!: py_range2_bounds split: if_splits)

lemma leaf_places_near:
  assumes "c \<in> set (leaf_places sp ph r hh)"
  shows "\<bar>fst (fst c) - fst sp\<bar> \<le> r + 1 \<and> \<bar>snd (snd (fst c)) - snd (snd sp)\<bar> \<le> r + 1"
  using assms
  by (auto simp: leaf_places_def vadd_components split: if_splits)

lemma build_treehouse_near:
  assumes "0 \<le> r" "c \<in> set (new_calls s (build_treehouse sp th ph r hh bt s))"
  shows "\<bar>fst (fst c) - fst sp\<bar> \<le> r + 1 \<and> \<bar>snd (snd (fst c)) - snd (snd sp)\<bar> \<le> r + 1"
proof -
  obtain ys where ys: "calls (build_treehouse sp th ph r hh bt s)
          = calls s @ structure_calls sp th ph r hh bt @ ys"
      "subseq ys (leaf_places sp ph r hh)"
    using calls_build_treehouse by blast
  have "new_calls s (build_treehouse sp th ph r hh bt s) = structure_calls sp th ph r hh bt @ ys"
    using ys(1) by (rule new_calls_append)
  with assms(2) have "c \<in> set (structure_calls sp th ph r hh bt) \<or> c \<in> set ys" by auto
  then show ?thesis
  proof
    assume "c \<in> set (structure_calls sp th ph r hh bt)"
    with assms(1) show ?thesis by (rule structure_calls_near)
  next
    assume "c \<in> set ys"
    then have "c \<in> set (leaf_places sp ph r hh)" using subseq_set [OF ys(2)] by auto
    then show ?thesis by (rule leaf_places_near)
  qed
qed

lemma platform_edge_in_build_treehouse:
  assumes "0 \<le> r"
  shows "(vadd sp (- r, ph, 0), Block ''oak_log'')
           \<in> set (new_calls s (build_treehouse sp th ph r hh bt s))"
proof -
  obtain ys where ys: "calls (build_treehouse sp th ph r hh bt s)
          = calls s @ structure_calls sp th ph r hh bt @ ys"
    using calls_build_treehouse by blast
  have n: "new_calls s (build_treehouse sp th ph r hh bt s) = structure_calls sp th ph r hh bt @ ys"
    using ys(1) by (rule new_calls_append)
  have "(vadd sp (- r, ph, 0), Block ''oak_log'') \<in> set (platform_calls sp ph r)"
    unfolding set_platform_calls using assms by force
  then show ?thesis
    unfolding n by (simp add: structure_calls_def)
qed

text \<open>
  Claim C6 as stated fails for the tree house. Built at the corner \<open>buildArea.begin\<close>
  of a build area of 65 by 65 columns with the arguments the script passes, the
  platform pass places a block at \<open>begin + (-3, 10, 0)\<close>, three columns outside the
  build rectangle.
\<close>

theorem treehouse_leaves_build_area:
  "\<not> (\<forall>c \<in> set (new_calls example_state
            (build_treehouse (box_begin script_box) 15 10 3 4 (Block ''oak_log'')
               example_state)).
         in_rect (toRect script_box) (fst c))"
proof
  assume a: "\<forall>c \<in> set (new_calls example_state
            (build_treehouse (box_begin script_box) 15 10 3 4 (Block ''oak_log'')
               example_state)).
         in_rect (toRect script_box) (fst c)"
  have "(vadd (box_begin script_box) (- 3, 10, 0), Block ''oak_log'')
      \<in> set (new_calls example_state
            (build_treehouse (box_begin script_box) 15 10 3 4 (Block ''oak_log'')
               example_state))"
    by (rule platform_edge_in_build_treehouse) simp
  with a have "in_rect (toRect script_box) (vadd (box_begin script_box) (- 3, 10, 0))"
    by fastforce
  then show False
    by (simp add: in_rect_def toRect_def script_box_def)
qed

text \<open>
  Claim C6, amended. Every call that \<open>clear_area\<close> issues, whether the run returns
  or raises, targets a coordinate whose \<open>x\<close> and \<open>z\<close> lie inside the build rectangle
  it is given. Every call that \<open>build_treehouse\<close> issues, for a radius that is not
  negative, targets a coordinate whose \<open>x\<close> and \<open>z\<close> are within
  \<open>platform_radius + 1\<close> of those of \<open>starting_pos\<close>: the structure is centred on
  \<open>starting_pos\<close>.
\<close>

theorem calls_stay_in_bounds:
  "(\<forall>c \<in> set (new_calls s (final (clear_area heightmap buildRect build_area s))).
       in_rect buildRect (fst c))
   \<and> (0 \<le> platform_radius \<longrightarrow>
       (\<forall>c \<in> set (new_calls s
             (build_treehouse starting_pos tree_height platform_height platform_radius
                house_height block_type s)).
          \<bar>fst (fst c) - fst starting_pos\<bar> \<le> platform_radius + 1
          \<and> \<bar>snd (snd (fst c)) - snd (snd starting_pos)\<bar> \<le> platform_radius + 1))"
proof -
  obtain cs where cs: "calls (final (clear_area heightmap buildRect build_area s)) = calls s @ cs"
      "\<forall>c \<in> set cs. in_rect buildRect (fst c)"
    using clear_area_calls_in_rect by blast
  have "new_calls s (final (clear_area heightmap buildRect build_area s)) = cs"
    using cs(1) by (rule new_calls_append)
  then show ?thesis
    using cs(2) build_treehouse_near by blast
qed

text \<open>
  On the small world \<open>clear_area\<close> replaces the log at \<open>(5, 2, 7)\<close>, inside its
  rectangle; the tree house built at \<open>(5, 0, 7)\<close> with radius 3 places a platform
  block at \<open>(2, 10, 7)\<close>, three columns from its centre.
\<close>

theorem calls_stay_in_bounds_example:
  "((5, 2, 7), Block ''air'')
     \<in> set (new_calls example_state
          (final (clear_area example_bottom example_rect example_box example_state)))
   \<and> in_rect example_rect (5, 2, 7)
   \<and> ((2, 10, 7), Block ''oak_log'')
     \<in> set (new_calls example_state
          (build_treehouse (5, 0, 7) 15 10 3 4 (Block ''oak_log'') example_state))
   \<and> \<bar>2 - 5 :: int\<bar> \<le> 3 + 1"
proof -
  note b = calls_stay_in_bounds [of example_state example_bottom example_rect example_box
      3 "(5, 0, 7)" 15 10 4 "Block ''oak_log''"]
  have m1: "((5, 2, 7), Block ''air'')
     \<in> set (new_calls example_state
          (final (clear_area example_bottom example_rect example_box example_state)))"
    by code_simp
  have m2: "((2, 10, 7), Block ''oak_log'')
     \<in> set (new_calls example_state
          (build_treehouse (5, 0, 7) 15 10 3 4 (Block ''oak_log'') example_state))"
    using platform_edge_in_build_treehouse [of 3 "(5, 0, 7)" 10 example_state 15 4
        "Block ''oak_log''"]
    by simp
  have "in_rect example_rect (fst ((5, 2, 7), Block ''air''))"
    using b m1 by blast
  moreover have "\<bar>fst (fst ((2 :: int, 10 :: int, 7 :: int), Block ''oak_log'')) - fst (5 :: int, 0 :: int, 7 :: int)\<bar> \<le> 3 + 1"
    using b m2 by fastforce
  ultimately show ?thesis using m1 m2 by simp
qed

section \<open>Flattening\<close>

lemma stdout_print [simp]: "stdout (print args s) = stdout s @ [args]"
  by (simp add: print_def)

lemma flatten_area_effect:
  "calls (flatten_area hm r ba s) = calls s @ flatten_calls r ba"
  "world (flatten_area hm r ba s) = replay (flatten_calls r ba) (world s)"
proof -
  define y0 where "y0 = fst (snd (box_begin ba)) - 1"
  define F where "F = (\<lambda>x z s. placeBlock (x, y0, z) (Block ''grass_block'')
            (print [PStr (block_id (getBlock s (x, y0, z)))] s))"
  have c: "calls (fold (\<lambda>x. fold (F x) zs) xs t)
      = calls t @ concat (map (\<lambda>x. map (\<lambda>z. ((x, y0, z), Block ''grass_block'')) zs) xs)"
    for xs zs t
    by (rule fold_calls, rule fold_calls_map) (simp add: F_def)
  have w: "world (fold (\<lambda>x. fold (F x) zs) xs t)
      = replay (concat (map (\<lambda>x. map (\<lambda>z. ((x, y0, z), Block ''grass_block'')) zs) xs)) (world t)"
    for xs zs t
    by (rule fold_world, rule fold_world_map) (simp add: F_def)
  show "calls (flatten_area hm r ba s) = calls s @ flatten_calls r ba"
    unfolding flatten_area_def flatten_calls_def Let_def
    using c by (simp add: F_def y0_def)
  show "world (flatten_area hm r ba s) = replay (flatten_calls r ba) (world s)"
    unfolding flatten_area_def flatten_calls_def Let_def
    using w by (simp add: F_def y0_def)
qed

lemma flatten_calls_column:
  "filter (\<lambda>c. fst (fst c) = x \<and> snd (snd (fst c)) = z) (flatten_calls r ba)
     = (if in_rect r (x, 0, z)
        then [((x, fst (snd (box_begin ba)) - 1, z), Block ''grass_block'')] else [])"
proof -
  define xs where "xs = py_range (fst (rect_offset r)) (fst (rect_offset r) + fst (rect_size r))"
  define zs where "zs = py_range (snd (rect_offset r)) (snd (rect_offset r) + snd (rect_size r))"
  define y0 where "y0 = fst (snd (box_begin ba)) - 1"
  define P where "P = (\<lambda>c :: pos \<times> block. fst (fst c) = x \<and> snd (snd (fst c)) = z)"
  define cell where "cell = (\<lambda>(x :: int) (z :: int). [((x, y0, z), Block ''grass_block'')])"
  define row where "row = (\<lambda>x. concat (map (cell x) zs))"
  have fc: "flatten_calls r ba = concat (map row xs)"
    by (simp add: flatten_calls_def xs_def zs_def y0_def row_def cell_def)
  have dx: "distinct xs" and dz: "distinct zs"
    by (simp_all add: xs_def zs_def)
  have rect: "in_rect r (x, 0, z) \<longleftrightarrow> x \<in> set xs \<and> z \<in> set zs"
    by (auto simp: in_rect_def xs_def zs_def)
  have "filter P (concat (map row xs)) = (if x \<in> set xs \<and> z \<in> set zs then cell x z else [])"
  proof (cases "x \<in> set xs \<and> z \<in> set zs")
    case True
    then have x: "x \<in> set xs" and z: "z \<in> set zs" by simp_all
    have "filter (\<lambda>c. fst (fst c) = x) (concat (map row xs)) = row x"
      by (rule filter_concat_one [OF dx x]) (auto simp: row_def cell_def)
    moreover have "filter P (row x) = cell x z"
      unfolding row_def
      by (rule filter_concat_one [OF dz z]) (auto simp: cell_def P_def)
    moreover have "filter P (filter (\<lambda>c. fst (fst c) = x) (concat (map row xs)))
        = filter P (concat (map row xs))"
      by (auto simp: filter_filter P_def intro: filter_cong)
    ultimately show ?thesis using True by simp
  next
    case False
    have "filter P (concat (map row xs)) = []"
      by (rule filter_concat_none) (use False in \<open>auto simp: row_def cell_def P_def\<close>)
    then show ?thesis using False by auto
  qed
  then show ?thesis
    by (simp add: fc rect P_def cell_def y0_def)
qed

lemma flatten_area_stdout:
  "stdout (flatten_area hm r ba s)
     = stdout s
       @ [[PStr ''max height is: '',
           PInt (fst (snd (box_size ba)) + (fst (snd (box_begin ba)) - 1))],
          [PStr ''min height is: '', PInt (fst (snd (box_begin ba)) - 1)]]
       @ [[PStr (block_id (getBlock s (x, fst (snd (box_begin ba)) - 1, z)))].
            x \<leftarrow> py_range (fst (rect_offset r)) (fst (rect_offset r) + fst (rect_size r)),
            z \<leftarrow> py_range (snd (rect_offset r)) (snd (rect_offset r) + snd (rect_size r))]
       @ [[PStr ''Build area flattened!'']]"
proof -
  define y0 where "y0 = fst (snd (box_begin ba)) - 1"
  define F where "F = (\<lambda>x z s. placeBlock (x, y0, z) (Block ''grass_block'')
            (print [PStr (block_id (getBlock s (x, y0, z)))] s))"
  define line where "line = (\<lambda>(t :: state) x z. [PStr (block_id (getBlock t (x, y0, z)))])"
  have wrow: "world (fold (F x) zs t)
      = replay (map (\<lambda>z. ((x, y0, z), Block ''grass_block'')) zs) (world t)" for x zs t
    by (rule fold_world_map) (simp add: F_def)
  have row: "stdout (fold (F x) zs t) = stdout t @ map (line t x) zs"
    if "distinct zs" for x zs t
    using that
  proof (induction zs arbitrary: t)
    case Nil
    show ?case by simp
  next
    case (Cons z zs)
    have "line (F x z t) x z' = line t x z'" if "z' \<in> set zs" for z'
      using that Cons.prems by (auto simp: line_def F_def getBlock_def)
    then have m: "map (line (F x z t) x) zs = map (line t x) zs" by simp
    have "stdout (fold (F x) zs (F x z t)) = stdout (F x z t) @ map (line (F x z t) x) zs"
      using Cons.prems by (intro Cons.IH) simp
    then show ?case
      unfolding m by (simp add: F_def line_def)
  qed
  have rows: "stdout (fold (\<lambda>x. fold (F x) zs) xs t)
      = stdout t @ concat (map (\<lambda>x. map (line t x) zs) xs)"
    if "distinct xs" "distinct zs" for xs zs t
    using that(1)
  proof (induction xs arbitrary: t)
    case Nil
    show ?case by simp
  next
    case (Cons x xs)
    have same: "line (fold (F x) zs t) x' z' = line t x' z'" if "x' \<in> set xs" for x' z'
    proof -
      have "x' \<noteq> x" using that Cons.prems by auto
      then have "(x', y0, z') \<notin> fst ` set (map (\<lambda>z. ((x, y0, z), Block ''grass_block'')) zs)"
        by auto
      then have "world (fold (F x) zs t) (x', y0, z') = world t (x', y0, z')"
        unfolding wrow by (rule replay_notin)
      then show ?thesis by (simp add: line_def getBlock_def)
    qed
    have m: "map (\<lambda>x'. map (line (fold (F x) zs t) x') zs) xs = map (\<lambda>x'. map (line t x') zs) xs"
    proof (rule map_cong [OF refl])
      fix x' assume "x' \<in> set xs"
      then have "line (fold (F x) zs t) x' = line t x'" using same by auto
      then show "map (line (fold (F x) zs t) x') zs = map (line t x') zs" by simp
    qed
    have "stdout (fold (\<lambda>x. fold (F x) zs) xs (fold (F x) zs t))
        = stdout (fold (F x) zs t)
          @ concat (map (\<lambda>x'. map (line (fold (F x) zs t) x') zs) xs)"
      using Cons.prems by (intro Cons.IH) simp
    then show ?case
      unfolding m by (simp add: row [OF that(2)])
  qed
  have pre: "getBlock (print a (print b s)) p = getBlock s p" for a b p
    by (simp add: getBlock_def)
  show ?thesis
    unfolding flatten_area_def Let_def
    using rows [of "py_range (fst (rect_offset r)) (fst (rect_offset r) + fst (rect_size r))"
           "py_range (snd (rect_offset r)) (snd (rect_offset r) + snd (rect_size r))"
           "print [PStr ''min height is: '', PInt y0]
              (print [PStr ''max height is: '', PInt (fst (snd (box_size ba)) + y0)] s)",
        OF distinct_py_range distinct_py_range]
    by (simp add: F_def y0_def line_def pre)
qed

text \<open>
  Claim C9. \<open>flatten_area\<close> places a grass block at \<open>(x, build_area.begin[1] - 1, z)\<close>
  for every column \<open>(x, z)\<close> of the build rectangle, unconditionally. The calls of a
  run that target a column are that one call when the column lies in the rectangle
  and none otherwise. The calls do not depend on the world or on anything else the
  editor holds: two runs on the same rectangle and box from any two states issue the
  same calls. The block read at each position is printed, between the two lines on
  the heights and the closing line, and is used for nothing else.
\<close>

theorem flatten_area_places_grass:
  "filter (\<lambda>c. fst (fst c) = x \<and> snd (snd (fst c)) = z)
     (new_calls s (flatten_area heightmap buildRect build_area s))
     = (if in_rect buildRect (x, 0, z)
        then [((x, fst (snd (box_begin build_area)) - 1, z), Block ''grass_block'')]
        else [])
   \<and> new_calls s (flatten_area heightmap buildRect build_area s)
     = new_calls t (flatten_area heightmap' buildRect build_area t)
   \<and> stdout (flatten_area heightmap buildRect build_area s)
     = stdout s
       @ [[PStr ''max height is: '',
           PInt (fst (snd (box_size build_area)) + (fst (snd (box_begin build_area)) - 1))],
          [PStr ''min height is: '', PInt (fst (snd (box_begin build_area)) - 1)]]
       @ [[PStr (block_id (getBlock s (x', fst (snd (box_begin build_area)) - 1, z')))].
            x' \<leftarrow> py_range (fst (rect_offset buildRect))
                   (fst (rect_offset buildRect) + fst (rect_size buildRect)),
            z' \<leftarrow> py_range (snd (rect_offset buildRect))
                   (snd (rect_offset buildRect) + snd (rect_size buildRect))]
       @ [[PStr ''Build area flattened!'']]"
proof -
  have n: "new_calls s (flatten_area hm buildRect build_area s) = flatten_calls buildRect build_area"
    for s hm
    by (rule new_calls_append) (rule flatten_area_effect)
  show ?thesis
    unfolding n by (intro conjI flatten_calls_column refl flatten_area_stdout)
qed

text \<open>
  On the small world, whose build area begins at height 0, the run places a grass
  block at height -1 in each of the two columns.
\<close>

theorem flatten_area_places_grass_example:
  "new_calls example_state (flatten_area example_bottom example_rect example_box example_state)
     = [((5, - 1, 7), Block ''grass_block''), ((5, - 1, 8), Block ''grass_block'')]
   \<and> filter (\<lambda>c. fst (fst c) = 5 \<and> snd (snd (fst c)) = 8)
       (new_calls example_state
          (flatten_area example_bottom example_rect example_box example_state))
     = [((5, - 1, 8), Block ''grass_block'')]"
proof -
  have "new_calls example_state
          (flatten_area example_bottom example_rect example_box example_state)
     = [((5, - 1, 7), Block ''grass_block''), ((5, - 1, 8), Block ''grass_block'')]"
    by code_simp
  moreover have "in_rect example_rect (5, 0, 8)"
    by (simp add: in_rect_def example_rect_def)
  ultimately show ?thesis
    using flatten_area_places_grass [of 5 8 example_state example_bottom example_rect
        example_box example_state example_bottom]
    by (simp add: example_box_def)
qed

end
